theory Spec2Isabelle
  imports Main "HOL-Library.Word" "HOL-Library.Signed_Division"
begin

unbundle bit_operations_syntax

section \<open>Machine integers and failures\<close>

text \<open>
  Both tools (\<^verbatim>\<open>tools/psi_power_tables.c\<close> and \<^verbatim>\<open>tools/shoup_tables.c\<close>) compute on
  \<^verbatim>\<open>uint32_t\<close> and \<^verbatim>\<open>int32_t\<close>. Both are 32-bit words here: the arithmetic wraps
  modulo \<open>2 ^ 32\<close>, \<open>unat\<close> reads a word as the unsigned value and \<open>sint\<close> as the
  two's-complement value. A conversion between \<^verbatim>\<open>uint32_t\<close> and \<^verbatim>\<open>int32_t\<close> keeps the
  bits, so it is the identity on words; what differs is which comparison and which
  division an expression uses, and the definitions below follow the C types for that.
  Signed arithmetic wraps as well (the behaviour of the two's-complement targets; ISO C
  leaves signed overflow undefined).
\<close>

type_synonym uint32 = "32 word"
type_synonym int32 = "32 word"

text \<open>The places where the programs can stop abnormally.\<close>

datatype assert_site =
    Power_q_positive      \<comment> \<open>\<^verbatim>\<open>assert(q > 0)\<close> in \<^verbatim>\<open>power\<close>\<close>
  | Inverse_r1_bezout     \<comment> \<open>\<^verbatim>\<open>assert(r1 == (int32_t) n * u1 + (int32_t) q * v1)\<close>\<close>
  | Inverse_r2_bezout     \<comment> \<open>\<^verbatim>\<open>assert(r2 == (int32_t) n * u2 + (int32_t) q * v2)\<close>\<close>
  | Inverse_r1_nonneg     \<comment> \<open>\<^verbatim>\<open>assert(r1 >= 0)\<close>\<close>
  | Inverse_result        \<comment> \<open>\<^verbatim>\<open>assert(((((int32_t) n) * u1) % (int32_t) q) == 1)\<close>\<close>
  | Main_phi_root         \<comment> \<open>\<^verbatim>\<open>assert(power(phi, n, q) == 1)\<close> in \<^verbatim>\<open>main\<close>\<close>
  | Shoup_cursor          \<comment> \<open>\<^verbatim>\<open>assert(i == t+j)\<close> in \<^verbatim>\<open>build_shoup_table\<close>\<close>
  | Shoup_bound           \<comment> \<open>\<^verbatim>\<open>assert(i < n)\<close> in \<^verbatim>\<open>build_shoup_table\<close>\<close>

datatype error =
    AssertFail assert_site  \<comment> \<open>a failed \<^verbatim>\<open>assert\<close>: the process aborts\<close>
  | DivByZero               \<comment> \<open>\<^verbatim>\<open>/\<close> or \<^verbatim>\<open>%\<close> with a zero divisor\<close>
  | DivOverflow             \<comment> \<open>\<^verbatim>\<open>INT32_MIN % -1\<close>\<close>
  | OutOfBounds             \<comment> \<open>a write outside the table\<close>

section \<open>Modular arithmetic kernel\<close>

subsection \<open>\<^verbatim>\<open>power\<close>: square and multiply\<close>

text \<open>
  The loop of \<^verbatim>\<open>power\<close>, on its three variables \<open>y\<close>, \<open>x\<close>, \<open>k\<close>:
  \<^verbatim>\<open>while (k != 0) { if ((k & 1) != 0) y = (y * x) % q;  k >>= 1;  x = (x * x) % q; }\<close>
  The products are 32-bit products: they wrap before \<^verbatim>\<open>% q\<close> is taken.
\<close>

function power_loop :: "uint32 \<Rightarrow> uint32 \<Rightarrow> uint32 \<Rightarrow> uint32 \<Rightarrow> uint32" where
  "power_loop q y x k =
     (if k \<noteq> 0
      then power_loop q (if k AND 1 \<noteq> 0 then (y * x) mod q else y) ((x * x) mod q) (drop_bit 1 k)
      else y)"
  by pat_completeness auto
termination
proof (relation "measure (\<lambda>(q, y, x, k). unat k)")
  show "wf (measure (\<lambda>(q, y, x, k). unat k))" by simp
next
  fix q y x k :: uint32
  assume "k \<noteq> 0"
  then have "0 < unat k" by (simp add: unat_gt_0)
  then have "unat k div 2 < unat k" by simp
  then show "((q, if k AND 1 \<noteq> 0 then (y * x) mod q else y, (x * x) mod q, drop_bit 1 k), (q, y, x, k))
      \<in> measure (\<lambda>(q, y, x, k). unat k)"
    by (simp add: drop_bit_eq_div unat_div)
qed

definition power :: "uint32 \<Rightarrow> uint32 \<Rightarrow> uint32 \<Rightarrow> error + uint32" where
  "power x k q =
     (if 0 < q then Inr (power_loop q 1 x k) else Inl (AssertFail Power_q_positive))"

subsection \<open>\<^verbatim>\<open>inverse\<close>: extended Euclid on \<^verbatim>\<open>int32_t\<close>\<close>

text \<open>
  The six \<^verbatim>\<open>int32_t\<close> variables of the Euclidean loop. (\<^verbatim>\<open>g\<close> and \<^verbatim>\<open>x\<close> are
  temporaries of one iteration.)
\<close>

record euclid =
  r1 :: int32
  r2 :: int32
  u1 :: int32
  u2 :: int32
  v1 :: int32
  v2 :: int32

text \<open>
  C's \<^verbatim>\<open>/\<close> on \<^verbatim>\<open>int32_t\<close> truncates towards zero. In the loop the divisor is \<^verbatim>\<open>r2 > 0\<close>,
  so the quotient is defined and cannot overflow.
\<close>

definition sdiv32 :: "int32 \<Rightarrow> int32 \<Rightarrow> int32" where
  "sdiv32 a b = word_of_int (sint a sdiv sint b)"

text \<open>C's \<^verbatim>\<open>%\<close> on \<^verbatim>\<open>int32_t\<close>: the remainder of the truncating division.\<close>

definition srem32 :: "int32 \<Rightarrow> int32 \<Rightarrow> error + int32" where
  "srem32 a b =
     (if b = 0 then Inl DivByZero
      else if a = - (2 ^ 31) \<and> b = - 1 then Inl DivOverflow
      else Inr (word_of_int (sint a smod sint b)))"

text \<open>
  One iteration after the assertions:
  \<^verbatim>\<open>g = r1/r2;  x = r1; r1 = r2; r2 = x - g * r2;  (the same for u and v)\<close>
\<close>

definition euclid_step :: "euclid \<Rightarrow> euclid" where
  "euclid_step s =
     (let g = sdiv32 (r1 s) (r2 s)
      in \<lparr> r1 = r2 s, r2 = r1 s - g * r2 s,
           u1 = u2 s, u2 = u1 s - g * u2 s,
           v1 = v2 s, v2 = v1 s - g * v2 s \<rparr>)"

text \<open>The three assertions at the head of the loop body, as C evaluates them.\<close>

definition euclid_asserts :: "uint32 \<Rightarrow> uint32 \<Rightarrow> euclid \<Rightarrow> error option" where
  "euclid_asserts n q s =
     (if r1 s \<noteq> n * u1 s + q * v1 s then Some (AssertFail Inverse_r1_bezout)
      else if r2 s \<noteq> n * u2 s + q * v2 s then Some (AssertFail Inverse_r2_bezout)
      else if \<not> (0 \<le>s r1 s) then Some (AssertFail Inverse_r1_nonneg)
      else None)"

lemma sint_eqI:
  fixes w :: "32 word"
  assumes "w = word_of_int k" and "- (2 ^ 31) \<le> k" and "k < 2 ^ 31"
  shows "sint w = k"
  using assms by (simp add: sint_sbintrunc' signed_take_bit_int_eq_self)

lemma sint_sdiv32_nonneg:
  assumes "0 \<le> sint a" and "0 < sint b"
  shows "sint (sdiv32 a b) = sint a div sint b"
proof (rule sint_eqI)
  have "sint a sdiv sint b = sint a div sint b"
    using assms by (simp add: signed_divide_int_def sgn_if)
  then show "sdiv32 a b = word_of_int (sint a div sint b)"
    by (simp add: sdiv32_def)
  have "0 \<le> sint a div sint b" using assms by (simp add: pos_imp_zdiv_nonneg_iff)
  then show "- (2 ^ 31) \<le> sint a div sint b" by simp
  have "sint a div sint b \<le> sint a div 1"
    using assms by (intro zdiv_mono2) auto
  moreover have "sint a < 2 ^ 31" using sint_lt [of a] by simp
  ultimately show "sint a div sint b < 2 ^ 31" by simp
qed

lemma sint_euclid_step_r2:
  assumes "0 \<le> sint (r1 s)" and "0 < sint (r2 s)"
  shows "sint (r2 (euclid_step s)) = sint (r1 s) mod sint (r2 s)"
proof (rule sint_eqI)
  let ?a = "sint (r1 s)" and ?b = "sint (r2 s)"
  have "r2 (euclid_step s) = word_of_int (?a - sint (sdiv32 (r1 s) (r2 s)) * ?b)"
    by (simp add: euclid_step_def Let_def)
  also have "?a - sint (sdiv32 (r1 s) (r2 s)) * ?b = ?a mod ?b"
    using assms by (simp add: sint_sdiv32_nonneg minus_div_mult_eq_mod)
  finally show "r2 (euclid_step s) = word_of_int (?a mod ?b)" .
  have "0 \<le> ?a mod ?b" using assms by simp
  then show "- (2 ^ 31) \<le> ?a mod ?b" by simp
  have "?a mod ?b < ?b" using assms by simp
  moreover have "?b < 2 ^ 31" using sint_lt [of "r2 s"] by simp
  ultimately show "?a mod ?b < 2 ^ 31" by linarith
qed

text \<open>
  \<^verbatim>\<open>while (r2 > 0) { assert(...); assert(...); assert(r1 >= 0); ... }\<close>
  A failed assertion ends the run; otherwise the loop returns the state in which
  \<^verbatim>\<open>r2 > 0\<close> is false.
\<close>

function inverse_loop :: "uint32 \<Rightarrow> uint32 \<Rightarrow> euclid \<Rightarrow> error + euclid" where
  "inverse_loop n q s =
     (if 0 <s r2 s
      then (case euclid_asserts n q s of
              Some e \<Rightarrow> Inl e
            | None \<Rightarrow> inverse_loop n q (euclid_step s))
      else Inr s)"
  by pat_completeness auto
termination
proof (relation "measure (\<lambda>(n, q, s). nat (sint (r2 s)))")
  show "wf (measure (\<lambda>(n, q, s). nat (sint (r2 s))))" by simp
next
  fix n q :: uint32 and s :: euclid
  assume pos: "0 <s r2 s" and ok: "euclid_asserts n q s = None"
  from pos have b: "0 < sint (r2 s)" by (simp add: word_sless_alt)
  from ok have a: "0 \<le> sint (r1 s)"
    by (simp add: euclid_asserts_def word_sle_eq split: if_splits)
  have "sint (r2 (euclid_step s)) < sint (r2 s)"
    using a b by (simp add: sint_euclid_step_r2)
  then show "((n, q, euclid_step s), (n, q, s)) \<in> measure (\<lambda>(n, q, s). nat (sint (r2 s)))"
    using b by simp
qed

text \<open>
  The code after the loop:
  \<^verbatim>\<open>if (r1 == 1) { u1 = u1 % (int32_t) q;  if (u1 < 0) u1 += q;
                   assert(((((int32_t) n) * u1) % (int32_t) q) == 1);
                   *inv_n = u1;  return true; } else { return false; }\<close>
  \<open>Inr (Some v)\<close> is \<^verbatim>\<open>true\<close> with \<^verbatim>\<open>*inv_n = v\<close>, \<open>Inr None\<close> is \<^verbatim>\<open>false\<close>, and \<open>Inl e\<close>
  is a run that does not return.
\<close>

definition inverse_finish :: "uint32 \<Rightarrow> uint32 \<Rightarrow> euclid \<Rightarrow> error + uint32 option" where
  "inverse_finish n q s =
     (if r1 s = 1
      then (case srem32 (u1 s) q of
              Inl e \<Rightarrow> Inl e
            | Inr u \<Rightarrow>
                let u' = (if u <s 0 then u + q else u)
                in (case srem32 (n * u') q of
                      Inl e \<Rightarrow> Inl e
                    | Inr m \<Rightarrow>
                        if m = 1 then Inr (Some u') else Inl (AssertFail Inverse_result)))
      else Inr None)"

text \<open>\<^verbatim>\<open>r1 = n; u1 = 1; v1 = 0;  r2 = q; u2 = 0, v2 = 1;\<close>\<close>

definition euclid_init :: "uint32 \<Rightarrow> uint32 \<Rightarrow> euclid" where
  "euclid_init n q = \<lparr> r1 = n, r2 = q, u1 = 1, u2 = 0, v1 = 0, v2 = 1 \<rparr>"

definition inverse :: "uint32 \<Rightarrow> uint32 \<Rightarrow> error + uint32 option" where
  "inverse n q =
     (case inverse_loop n q (euclid_init n q) of
        Inl e \<Rightarrow> Inl e
      | Inr s \<Rightarrow> inverse_finish n q s)"

text \<open>
  The invariant that the comment at the head of \<^verbatim>\<open>inverse\<close> states and the assertions
  check, read over the integers: \<open>r1 = n * u1 + q * v1\<close>, \<open>r2 = n * u2 + q * v2\<close> and
  \<open>r1 \<ge> 0\<close>, each variable taken at its \<^verbatim>\<open>int32_t\<close> value.
\<close>

definition bezout_inv :: "uint32 \<Rightarrow> uint32 \<Rightarrow> euclid \<Rightarrow> bool" where
  "bezout_inv n q s \<longleftrightarrow>
     sint (r1 s) = sint n * sint (u1 s) + sint q * sint (v1 s)
   \<and> sint (r2 s) = sint n * sint (u2 s) + sint q * sint (v2 s)
   \<and> 0 \<le> sint (r1 s)"

text \<open>
  The states in which control stands at the loop test \<^verbatim>\<open>while (r2 > 0)\<close>: the initial
  state, and the state after each iteration whose assertions passed.
\<close>

inductive loop_head :: "uint32 \<Rightarrow> uint32 \<Rightarrow> euclid \<Rightarrow> bool" for n q where
  start: "loop_head n q (euclid_init n q)"
| iter: "loop_head n q s \<Longrightarrow> 0 <s r2 s \<Longrightarrow> euclid_asserts n q s = None
         \<Longrightarrow> loop_head n q (euclid_step s)"


section \<open>Geometric tables (\<^verbatim>\<open>psi_power_tables.c\<close>)\<close>

text \<open>
  What a table printer writes to its stream: the name, \<open>q\<close> and \<open>n\<close> of the header line
  \<^verbatim>\<open>const int32_t <name><q>n<n>[<n>] = {\<close> and the entries in the order printed. The layout
  (eight entries per line, the counter \<^verbatim>\<open>k\<close>) is not modelled.
\<close>

record table =
  table_name :: string
  table_q :: uint32
  table_n :: uint32
  entries :: "uint32 list"

lemma unat_succ_less:
  fixes i n :: "32 word"
  assumes "i < n"
  shows "unat (i + 1) = Suc (unat i)"
proof -
  have "unat i < unat n" using assms by (simp add: word_less_nat_alt)
  moreover have "unat n < 2 ^ 32" using unsigned_less [of n] by simp
  ultimately have "unat i + unat (1 :: 32 word) < 2 ^ LENGTH(32)" by simp
  then have "unat (i + 1) = unat i + unat (1 :: 32 word)"
    by (simp only: unat_add_lem)
  then show ?thesis by simp
qed

text \<open>
  The loop of \<^verbatim>\<open>power_table\<close>:
  \<^verbatim>\<open>for (i=0; i<n; i++) { fprintf(f, " %5u,", x);  ...  x = (x * b) % q; }\<close>
  The result is the list of the values printed from index \<open>i\<close> on, and the failure, if
  any, that cut the loop short.
\<close>

function power_table_loop ::
  "uint32 \<Rightarrow> uint32 \<Rightarrow> uint32 \<Rightarrow> uint32 \<Rightarrow> uint32 \<Rightarrow> uint32 list \<times> error option" where
  "power_table_loop n q b i x =
     (if i < n
      then (if q = 0 then ([x], Some DivByZero)
            else (let (xs, e) = power_table_loop n q b (i + 1) ((x * b) mod q)
                  in (x # xs, e)))
      else ([], None))"
  by pat_completeness auto
termination
  by (relation "measure (\<lambda>(n, q, b, i, x). unat n - unat i)")
     (auto simp: unat_succ_less word_less_nat_alt)

definition power_table ::
  "string \<Rightarrow> uint32 \<Rightarrow> uint32 \<Rightarrow> uint32 \<Rightarrow> uint32 \<Rightarrow> table \<times> error option" where
  "power_table name n q x b =
     (let (xs, e) = power_table_loop n q b 0 x
      in (\<lparr> table_name = name, table_q = q, table_n = n, entries = xs \<rparr>, e))"

definition psi_power_table :: "uint32 \<Rightarrow> uint32 \<Rightarrow> uint32 \<Rightarrow> table \<times> error option" where
  "psi_power_table n q psi = power_table ''psi_powers_ntt'' n q 1 psi"

definition inv_psi_power_table :: "uint32 \<Rightarrow> uint32 \<Rightarrow> uint32 \<Rightarrow> table \<times> error option" where
  "inv_psi_power_table n q inv_psi = power_table ''inv_psi_powers_ntt'' n q 1 inv_psi"

definition scaled_inv_psi_power_table ::
  "uint32 \<Rightarrow> uint32 \<Rightarrow> uint32 \<Rightarrow> uint32 \<Rightarrow> table \<times> error option" where
  "scaled_inv_psi_power_table n q inv_psi inv_n =
     power_table ''scaled_inv_psi_powers_ntt'' n q inv_n inv_psi"

section \<open>The command line: parsing and the root checks\<close>

text \<open>
  The lines a tool writes to the error stream, one constructor for each \<^verbatim>\<open>fprintf\<close>
  to \<^verbatim>\<open>stderr\<close> (and one for the message of a failed \<^verbatim>\<open>assert\<close>), with the values
  printed.
\<close>

datatype diagnostic =
    Usage string
  | Invalid_modulus string
  | Modulus_too_large
  | Invalid_size string
  | Size_too_large
  | Psi_out_of_range uint32
  | Not_root_of_minus_one uint32 uint32
  | Not_primitive uint32
  | Not_primitive_exponent
  | Size_not_invertible uint32 uint32
  | Psi_not_invertible uint32
  | Alloc_failed uint32
  | Assertion_failed assert_site
  | Parameters
  | Param string uint32

datatype exit_status =
    Exit_success          \<comment> \<open>\<^verbatim>\<open>return 0\<close>\<close>
  | Exit_failure          \<comment> \<open>\<^verbatim>\<open>exit(EXIT_FAILURE)\<close>\<close>
  | Abnormal error        \<comment> \<open>\<^verbatim>\<open>abort()\<close> after a failed assertion, or a trap\<close>

record outcome =
  err_stream :: "diagnostic list"
  out_stream :: "table list"
  status :: exit_status

text \<open>A run that stops before \<^verbatim>\<open>main\<close> returns: what it printed to \<^verbatim>\<open>stderr\<close> and how it ended.\<close>

type_synonym stop = "diagnostic list \<times> exit_status"

definition crash :: "error \<Rightarrow> stop" where
  "crash e = (case e of AssertFail a \<Rightarrow> ([Assertion_failed a], Abnormal e)
                      | _ \<Rightarrow> ([], Abnormal e))"

text \<open>
  Lines 127 to 159 of both \<^verbatim>\<open>main\<close> functions, which are the same text. \<^verbatim>\<open>atol\<close> is the C
  library's; it is a parameter here, and its \<^verbatim>\<open>long\<close> result an integer, which the
  code only compares before it converts it to \<^verbatim>\<open>uint32_t\<close>. \<open>argv\<close> is the argument
  vector, \<open>argc\<close> its length.
\<close>

definition parse_args :: "(string \<Rightarrow> int) \<Rightarrow> string list \<Rightarrow> diagnostic + (uint32 \<times> uint32 \<times> uint32)" where
  "parse_args atol argv =
     (if length argv \<noteq> 4 then Inl (Usage (case argv of [] \<Rightarrow> [] | a # _ \<Rightarrow> a))
      else let x = atol (argv ! 1) in
        if x \<le> 1 then Inl (Invalid_modulus (argv ! 1))
        else if x \<ge> 0xFFFF then Inl Modulus_too_large
        else let q = (word_of_int x :: uint32); x = atol (argv ! 2) in
          if x \<le> 1 then Inl (Invalid_size (argv ! 2))
          else if x \<ge> 100000 then Inl Size_too_large
          else let n = (word_of_int x :: uint32); x = atol (argv ! 3) in
            if x \<le> 1 \<or> x \<ge> uint q then Inl (Psi_out_of_range (q - 1))
            else Inr (q, n, word_of_int x))"

text \<open>
  The primitivity loop of \<^verbatim>\<open>main\<close>:
  \<^verbatim>\<open>for (i=1; i<n; i++) { if (power(psi, i, q) == 1) { ... exit(EXIT_FAILURE); } }\<close>
  \<open>Inr True\<close>: the loop ran to its end; \<open>Inr False\<close>: some \<open>i\<close> had \<^verbatim>\<open>power(psi, i, q) == 1\<close>.
\<close>

function primitive_loop :: "uint32 \<Rightarrow> uint32 \<Rightarrow> uint32 \<Rightarrow> uint32 \<Rightarrow> error + bool" where
  "primitive_loop psi n q i =
     (if i < n
      then (case power psi i q of
              Inl e \<Rightarrow> Inl e
            | Inr p \<Rightarrow> if p = 1 then Inr False else primitive_loop psi n q (i + 1))
      else Inr True)"
  by pat_completeness auto
termination
  by (relation "measure (\<lambda>(psi, n, q, i). unat n - unat i)")
     (auto simp: unat_succ_less word_less_nat_alt)

text \<open>
  Lines 160 to 178 of both \<^verbatim>\<open>main\<close> functions: \<^verbatim>\<open>phi\<close>, the check \<^verbatim>\<open>psi^n = q - 1\<close>, the
  assertion on \<^verbatim>\<open>phi\<close>, the primitivity loop and \<^verbatim>\<open>inverse(n, q, &inv_n)\<close>. The result is
  \<open>(phi, inv_n)\<close>.
\<close>

definition check_root :: "uint32 \<Rightarrow> uint32 \<Rightarrow> uint32 \<Rightarrow> stop + (uint32 \<times> uint32)" where
  "check_root q n psi =
     (if q = 0 then Inl (crash DivByZero)
      else let phi = (psi * psi) mod q in
        case power psi n q of
          Inl e \<Rightarrow> Inl (crash e)
        | Inr i \<Rightarrow>
            if i \<noteq> q - 1 then Inl ([Not_root_of_minus_one psi i], Exit_failure)
            else (case power phi n q of
                Inl e \<Rightarrow> Inl (crash e)
              | Inr p \<Rightarrow>
                  if p \<noteq> 1 then Inl (crash (AssertFail Main_phi_root))
                  else (case primitive_loop psi n q 1 of
                      Inl e \<Rightarrow> Inl (crash e)
                    | Inr False \<Rightarrow> Inl ([Not_primitive phi, Not_primitive_exponent], Exit_failure)
                    | Inr True \<Rightarrow>
                        (case inverse n q of
                           Inl e \<Rightarrow> Inl (crash e)
                         | Inr None \<Rightarrow> Inl ([Size_not_invertible n q], Exit_failure)
                         | Inr (Some inv_n) \<Rightarrow> Inr (phi, inv_n)))))"

text \<open>Writing tables one after the other; a failure in one ends the output there.\<close>

fun write_tables :: "(table \<times> error option) list \<Rightarrow> table list \<times> error option" where
  "write_tables [] = ([], None)"
| "write_tables ((t, Some e) # r) = ([t], Some e)"
| "write_tables ((t, None) # r) = (let (ts, e) = write_tables r in (t # ts, e))"

text \<open>What \<^verbatim>\<open>main\<close> of \<^verbatim>\<open>psi_power_tables.c\<close> prints once every check has passed.\<close>

definition psi_summary :: "uint32 \<Rightarrow> uint32 \<Rightarrow> uint32 \<Rightarrow> uint32 \<Rightarrow> uint32 \<Rightarrow> uint32 \<Rightarrow> diagnostic list" where
  "psi_summary q n psi phi inv_psi inv_n =
     [Parameters, Param ''q'' q, Param ''n'' n, Param ''psi'' psi,
      Param ''psi^2'' phi, Param ''psi^(-1)'' inv_psi,
      Param ''psi^(-2)'' ((inv_psi * inv_psi) mod q),
      Param ''n^(-1)'' inv_n]"

text \<open>\<^verbatim>\<open>main\<close> of \<^verbatim>\<open>psi_power_tables.c\<close>.\<close>

definition main_psi :: "(string \<Rightarrow> int) \<Rightarrow> string list \<Rightarrow> outcome" where
  "main_psi atol argv =
     (case parse_args atol argv of
        Inl d \<Rightarrow> \<lparr> err_stream = [d], out_stream = [], status = Exit_failure \<rparr>
      | Inr (q, n, psi) \<Rightarrow>
          (case check_root q n psi of
             Inl (ds, st) \<Rightarrow> \<lparr> err_stream = ds, out_stream = [], status = st \<rparr>
           | Inr (phi, inv_n) \<Rightarrow>
               (case inverse psi q of
                  Inl e \<Rightarrow> \<lparr> err_stream = fst (crash e), out_stream = [], status = snd (crash e) \<rparr>
                | Inr None \<Rightarrow>
                    \<lparr> err_stream = [Psi_not_invertible q], out_stream = [], status = Exit_failure \<rparr>
                | Inr (Some inv_psi) \<Rightarrow>
                    (let summary = psi_summary q n psi phi inv_psi inv_n;
                         (ts, e) = write_tables
                           [psi_power_table n q psi,
                            inv_psi_power_table n q inv_psi,
                            scaled_inv_psi_power_table n q inv_psi inv_n]
                     in \<lparr> err_stream = summary, out_stream = ts,
                          status = (case e of None \<Rightarrow> Exit_success | Some x \<Rightarrow> Abnormal x) \<rparr>))))"

text \<open>
  An instance of \<^verbatim>\<open>atol\<close> for the examples below: the value of an unsigned decimal
  numeral, which is what \<^verbatim>\<open>atol\<close> returns for such a string.
\<close>

fun decimal_digits :: "string \<Rightarrow> int \<Rightarrow> int" where
  "decimal_digits [] acc = acc"
| "decimal_digits (c # cs) acc =
     (let d = (of_char c :: nat)
      in if 48 \<le> d \<and> d \<le> 57 then decimal_digits cs (10 * acc + (int d - 48)) else acc)"

definition decimal :: "string \<Rightarrow> int" where
  "decimal s = decimal_digits s 0"

section \<open>The level table (\<^verbatim>\<open>shoup_tables.c\<close>)\<close>

text \<open>
  The state of \<^verbatim>\<open>build_shoup_table\<close> that outlives an iteration: the cursor \<^verbatim>\<open>i\<close> and the
  array \<^verbatim>\<open>a\<close>, a list as long as the block the caller allocated. \<open>writes\<close> is not a
  variable of the program: it records the indices of the stores \<^verbatim>\<open>a[..] = ..\<close> in the
  order in which they happen, so that statements about which cells are written, and how
  often, can be made.
\<close>

record shoup =
  cursor :: uint32
  tab :: "uint32 list"
  writes :: "nat list"

text \<open>
  The inner loop, on \<^verbatim>\<open>j\<close>, \<^verbatim>\<open>x\<close> and the state:
  \<^verbatim>\<open>for (j=0; j<t; j++) { assert(i == t+j); assert(i < n); a[i] = x; i ++; x = (x * y) % q; }\<close>
  A store outside the block is a failure of its own; with the second assertion in
  front of it, it happens only if the block is shorter than \<open>n\<close>.
\<close>

function shoup_inner ::
  "uint32 \<Rightarrow> uint32 \<Rightarrow> uint32 \<Rightarrow> uint32 \<Rightarrow> uint32 \<Rightarrow> uint32 \<Rightarrow> shoup \<Rightarrow> error + shoup" where
  "shoup_inner n q t y j x s =
     (if j < t
      then if cursor s \<noteq> t + j then Inl (AssertFail Shoup_cursor)
           else if \<not> cursor s < n then Inl (AssertFail Shoup_bound)
           else if length (tab s) \<le> unat (cursor s) then Inl OutOfBounds
           else if q = 0 then Inl DivByZero
           else shoup_inner n q t y (j + 1) ((x * y) mod q)
                  \<lparr> cursor = cursor s + 1,
                    tab = (tab s)[unat (cursor s) := x],
                    writes = writes s @ [unat (cursor s)] \<rparr>
      else Inr s)"
  by pat_completeness auto
termination
proof (relation "measure (\<lambda>(n, q, t, y, j, x, s). unat t - unat j)")
  show "wf (measure (\<lambda>(n, q, t, y, j, x, s). unat t - unat j))" by simp
next
  fix n q t y j x :: uint32 and s :: shoup
  assume jt: "j < t"
  then have "unat j < unat t" by (simp add: word_less_nat_alt)
  then have "unat t - unat (j + 1) < unat t - unat j"
    using unat_succ_less [OF jt] by simp
  then show "((n, q, t, y, j + 1, (x * y) mod q,
               \<lparr> cursor = cursor s + 1, tab = (tab s)[unat (cursor s) := x],
                 writes = writes s @ [unat (cursor s)] \<rparr>),
              (n, q, t, y, j, x, s))
      \<in> measure (\<lambda>(n, q, t, y, j, x, s). unat t - unat j)"
    by simp
qed

text \<open>
  The outer loop, on \<^verbatim>\<open>t\<close>:
  \<^verbatim>\<open>for (t=1; t<n; t <<= 1) { x = 1; y = power(phi, n/(2*t), q); <inner loop> }\<close>
  It ends for every \<open>t\<close>: a shift moves the lowest set bit of \<open>t\<close> up, so the bit-reversed
  \<open>t\<close> decreases, and for \<open>2 * t = 0\<close> the division stops the run.
\<close>

lemma word_reverse_push_bit:
  fixes t :: "32 word"
  shows "word_reverse (push_bit m t) = drop_bit m (word_reverse t)"
proof (rule bit_word_eqI)
  fix k :: nat
  assume "k < LENGTH(32)"
  then have k: "k < 32" by simp
  have "bit (word_reverse (push_bit m t)) k \<longleftrightarrow> bit (push_bit m t) (31 - k)"
    using k by (simp add: bit_word_reverse_iff)
  also have "\<dots> \<longleftrightarrow> m \<le> 31 - k \<and> bit t (31 - k - m)"
    by (auto simp: bit_push_bit_iff bit_imp_le_length)
  also have "\<dots> \<longleftrightarrow> m + k < 32 \<and> bit t (32 - Suc (m + k))"
    using k by (cases "m \<le> 31 - k") (auto simp: Suc_diff_Suc add.commute)
  also have "\<dots> \<longleftrightarrow> bit (word_reverse t) (m + k)"
    by (simp add: bit_word_reverse_iff)
  also have "\<dots> \<longleftrightarrow> bit (drop_bit m (word_reverse t)) k"
    by (simp add: bit_drop_bit_eq)
  finally show "bit (word_reverse (push_bit m t)) k \<longleftrightarrow> bit (drop_bit m (word_reverse t)) k" .
qed

lemma unat_word_reverse_shift:
  fixes t :: "32 word"
  assumes "t \<noteq> 0"
  shows "unat (word_reverse (push_bit 1 t)) < unat (word_reverse t)"
proof -
  have z: "word_reverse (0 :: 32 word) = 0"
    by (rule bit_word_eqI) (simp add: bit_word_reverse_iff)
  have "word_reverse t \<noteq> 0"
  proof
    assume "word_reverse t = 0"
    then have "word_reverse (word_reverse t) = word_reverse 0" by (simp only:)
    then have "t = 0" by (simp only: word_rev_rev z)
    with assms show False by simp
  qed
  then have "0 < unat (word_reverse t)" by (simp add: unat_gt_0)
  then have "unat (word_reverse t) div 2 < unat (word_reverse t)" by simp
  moreover have "unat (word_reverse (push_bit 1 t)) = unat (word_reverse t) div 2"
    by (simp only: word_reverse_push_bit) (simp add: drop_bit_eq_div unat_div)
  ultimately show ?thesis by (simp only:)
qed

function shoup_outer ::
  "uint32 \<Rightarrow> uint32 \<Rightarrow> uint32 \<Rightarrow> uint32 \<Rightarrow> shoup \<Rightarrow> error + shoup" where
  "shoup_outer n q phi t s =
     (if t < n
      then if 2 * t = 0 then Inl DivByZero
           else (case power phi (n div (2 * t)) q of
                   Inl e \<Rightarrow> Inl e
                 | Inr y \<Rightarrow>
                     (case shoup_inner n q t y 0 1 s of
                        Inl e \<Rightarrow> Inl e
                      | Inr s' \<Rightarrow> shoup_outer n q phi (push_bit 1 t) s'))
      else Inr s)"
  by pat_completeness auto
termination
proof (relation "measure (\<lambda>(n, q, phi, t, s). unat (word_reverse t))")
  show "wf (measure (\<lambda>(n, q, phi, t, s). unat (word_reverse t)))" by simp
next
  fix n q phi t :: uint32 and s s' :: shoup and y :: uint32
  assume "2 * t \<noteq> 0"
  then have "t \<noteq> 0" by (cases "t = 0") simp_all
  then have "unat (word_reverse (push_bit 1 t)) < unat (word_reverse t)"
    by (rule unat_word_reverse_shift)
  then show "((n, q, phi, push_bit 1 t, s'), (n, q, phi, t, s))
      \<in> measure (\<lambda>(n, q, phi, t, s). unat (word_reverse t))"
    by (simp only: in_measure prod.case)
qed

text \<open>\<^verbatim>\<open>a[0] = 0; i = 1;\<close> and the outer loop from \<^verbatim>\<open>t = 1\<close>.\<close>

definition build_shoup_table :: "uint32 list \<Rightarrow> uint32 \<Rightarrow> uint32 \<Rightarrow> uint32 \<Rightarrow> error + shoup" where
  "build_shoup_table a n q phi =
     (if a = [] then Inl OutOfBounds
      else shoup_outer n q phi 1 \<lparr> cursor = 1, tab = a[0 := 0], writes = [0] \<rparr>)"

text \<open>
  \<^verbatim>\<open>print_table\<close>: the header \<^verbatim>\<open>const int32_t <name><n>_<q>[<n>] = {\<close> and then
  \<^verbatim>\<open>for (i=0; i<n; i++) { fprintf(f, " %5u,", a[i]); ... }\<close>
\<close>

function print_table_loop :: "uint32 list \<Rightarrow> uint32 \<Rightarrow> uint32 \<Rightarrow> uint32 list \<times> error option" where
  "print_table_loop a n i =
     (if i < n
      then (if length a \<le> unat i then ([], Some OutOfBounds)
            else (let (xs, e) = print_table_loop a n (i + 1) in (a ! unat i # xs, e)))
      else ([], None))"
  by pat_completeness auto
termination
  by (relation "measure (\<lambda>(a, n, i). unat n - unat i)")
     (auto simp: unat_succ_less word_less_nat_alt)

definition print_table :: "string \<Rightarrow> uint32 list \<Rightarrow> uint32 \<Rightarrow> uint32 \<Rightarrow> table \<times> error option" where
  "print_table name a n q =
     (let (xs, e) = print_table_loop a n 0
      in (\<lparr> table_name = name, table_q = q, table_n = n, entries = xs \<rparr>, e))"

text \<open>What \<^verbatim>\<open>main\<close> of \<^verbatim>\<open>shoup_tables.c\<close> prints once every check has passed.\<close>

definition shoup_summary :: "uint32 \<Rightarrow> uint32 \<Rightarrow> uint32 \<Rightarrow> uint32 \<Rightarrow> uint32 \<Rightarrow> diagnostic list" where
  "shoup_summary q n psi phi inv_n =
     [Parameters, Param ''q'' q, Param ''n'' n, Param ''psi'' psi,
      Param ''psi^2'' phi, Param ''n^(-1)'' inv_n]"

text \<open>
  \<^verbatim>\<open>main\<close> of \<^verbatim>\<open>shoup_tables.c\<close>. \<^verbatim>\<open>malloc\<close> is the C library's and a parameter here: asked
  for \<open>n\<close> words it returns \<open>None\<close> (\<^verbatim>\<open>NULL\<close>) or the initial contents of the block, a
  function of the index.
\<close>

definition main_shoup ::
  "(string \<Rightarrow> int) \<Rightarrow> (nat \<Rightarrow> (nat \<Rightarrow> uint32) option) \<Rightarrow> string list \<Rightarrow> outcome" where
  "main_shoup atol malloc argv =
     (case parse_args atol argv of
        Inl d \<Rightarrow> \<lparr> err_stream = [d], out_stream = [], status = Exit_failure \<rparr>
      | Inr (q, n, psi) \<Rightarrow>
          (case check_root q n psi of
             Inl (ds, st) \<Rightarrow> \<lparr> err_stream = ds, out_stream = [], status = st \<rparr>
           | Inr (phi, inv_n) \<Rightarrow>
               (let summary = shoup_summary q n psi phi inv_n
                in case malloc (unat n) of
                     None \<Rightarrow>
                       \<lparr> err_stream = summary @ [Alloc_failed n], out_stream = [],
                         status = Exit_failure \<rparr>
                   | Some block \<Rightarrow>
                       (case build_shoup_table (map block [0..<unat n]) n q phi of
                          Inl e \<Rightarrow>
                            \<lparr> err_stream = summary @ fst (crash e), out_stream = [],
                              status = snd (crash e) \<rparr>
                        | Inr s \<Rightarrow>
                            (let (ts, e) = write_tables [print_table ''shoup_ntt'' (tab s) n q]
                             in \<lparr> err_stream = summary, out_stream = ts,
                                  status = (case e of None \<Rightarrow> Exit_success
                                                    | Some x \<Rightarrow> Abnormal x) \<rparr>)))))"

section \<open>Notions used in the statements\<close>

text \<open>
  The invariant used in the proofs: the asserted equations, the range of the remainders,
  two conservation laws that bound the coefficients (\<open>r1 * |u2| + r2 * |u1| = q\<close> and
  \<open>r1 * |v2| + r2 * |v1| = n\<close>), the alternating signs, and the gcd.
\<close>

definition euclid_inv :: "uint32 \<Rightarrow> uint32 \<Rightarrow> euclid \<Rightarrow> bool" where
  "euclid_inv n q s \<longleftrightarrow>
     bezout_inv n q s
   \<and> 1 \<le> sint (r1 s) \<and> 0 \<le> sint (r2 s)
   \<and> sint (r1 s) * \<bar>sint (u2 s)\<bar> + sint (r2 s) * \<bar>sint (u1 s)\<bar> = sint q
   \<and> sint (r1 s) * \<bar>sint (v2 s)\<bar> + sint (r2 s) * \<bar>sint (v1 s)\<bar> = sint n
   \<and> sint (u1 s) * sint (u2 s) \<le> 0
   \<and> sint (v1 s) * sint (v2 s) \<le> 0
   \<and> \<bar>sint (u1 s)\<bar> \<le> sint q
   \<and> \<bar>sint (v1 s)\<bar> \<le> sint n
   \<and> gcd (sint (r1 s)) (sint (r2 s)) = gcd (sint n) (sint q)"

text \<open>
  The value of \<^verbatim>\<open>x\<close> after \<open>k\<close> rounds of \<^verbatim>\<open>x = (x * b) % q\<close>, in 32-bit arithmetic.
\<close>

primrec geo :: "uint32 \<Rightarrow> uint32 \<Rightarrow> uint32 \<Rightarrow> nat \<Rightarrow> uint32" where
  "geo q b x 0 = x"
| "geo q b x (Suc k) = geo q b ((x * b) mod q) k"

text \<open>
  The array after \<open>k\<close> rounds of the inner loop's \<^verbatim>\<open>a[i] = x; i ++; x = (x * y) % q;\<close>
  from index \<open>i\<close> and value \<open>x\<close>.
\<close>

primrec store_run :: "uint32 \<Rightarrow> uint32 \<Rightarrow> uint32 list \<Rightarrow> nat \<Rightarrow> uint32 \<Rightarrow> nat \<Rightarrow> uint32 list" where
  "store_run q y a i x 0 = a"
| "store_run q y a i x (Suc k) = store_run q y (a[i := x]) (Suc i) ((x * y) mod q) k"

text \<open>
  The step \<^verbatim>\<open>y = power(phi, n/(2*t), q)\<close> of the stage \<open>t = 2 ^ l\<close>, when \<open>q > 0\<close>.
\<close>

definition stage_y :: "uint32 \<Rightarrow> uint32 \<Rightarrow> uint32 \<Rightarrow> nat \<Rightarrow> uint32" where
  "stage_y n q phi l = power_loop q 1 phi (n div (2 * 2 ^ l))"

text \<open>
  The checks of the specification, in its words and over the integers: the argument
  checks of its section 6 and the root checks 1, 3, 4 and 5 of its section 4.2.
\<close>

definition spec_args_valid :: "(string \<Rightarrow> int) \<Rightarrow> string list \<Rightarrow> bool" where
  "spec_args_valid atol argv \<longleftrightarrow>
     length argv = 4
   \<and> 1 < atol (argv ! 1) \<and> atol (argv ! 1) < 65535
   \<and> 1 < atol (argv ! 2) \<and> atol (argv ! 2) < 100000
   \<and> 2 \<le> atol (argv ! 3) \<and> atol (argv ! 3) < atol (argv ! 1)"

definition spec_root_valid :: "int \<Rightarrow> int \<Rightarrow> int \<Rightarrow> bool" where
  "spec_root_valid q n psi \<longleftrightarrow>
     psi ^ nat n mod q = q - 1
   \<and> list_all (\<lambda>i. psi ^ i mod q \<noteq> 1) [1..<nat n]
   \<and> gcd n q = 1"

definition spec_checks_shoup :: "(string \<Rightarrow> int) \<Rightarrow> string list \<Rightarrow> bool" where
  "spec_checks_shoup atol argv \<longleftrightarrow>
     spec_args_valid atol argv
   \<and> spec_root_valid (atol (argv ! 1)) (atol (argv ! 2)) (atol (argv ! 3))"

definition spec_checks_psi :: "(string \<Rightarrow> int) \<Rightarrow> string list \<Rightarrow> bool" where
  "spec_checks_psi atol argv \<longleftrightarrow>
     spec_checks_shoup atol argv
   \<and> gcd (atol (argv ! 3)) (atol (argv ! 1)) = 1"

section \<open>Properties of \<^verbatim>\<open>power\<close>\<close>

declare power_loop.simps [simp del]

lemma and_1_odd_unat: "(k::32 word) AND 1 \<noteq> 0 \<longleftrightarrow> odd (unat k)"
proof -
  have "unat (k AND 1) = unat k mod 2"
    by (simp add: and_one_eq unat_mod)
  then have "unat (k AND 1) \<noteq> 0 \<longleftrightarrow> odd (unat k)"
    by (simp add: odd_iff_mod_2_eq_one)
  then show ?thesis by (simp add: unat_eq_zero)
qed

lemma unat_mulmod:
  fixes a b q :: "32 word"
  assumes "unat a < 2 ^ 16" "unat b < 2 ^ 16"
  shows "unat ((a * b) mod q) = (unat a * unat b) mod unat q"
proof -
  have "unat a * unat b < 2 ^ 16 * 2 ^ 16"
    using assms by (intro mult_strict_mono) auto
  then have "unat (a * b) = unat a * unat b"
    by (simp add: unat_mult_lem [symmetric])
  then show ?thesis by (simp add: unat_mod)
qed

lemma unat_mod_small:
  fixes a q :: "32 word"
  assumes "0 < unat q" "unat q \<le> 2 ^ 16"
  shows "unat (a mod q) < 2 ^ 16"
proof -
  have "unat (a mod q) = unat a mod unat q" by (simp add: unat_mod)
  also have "\<dots> < unat q" using assms by simp
  finally show ?thesis using assms by simp
qed

lemma power_loop_correct:
  assumes "0 < unat q" "unat q \<le> 2 ^ 16" "unat x < 2 ^ 16" "unat y < 2 ^ 16"
  shows "unat (power_loop q y x k)
       = (if k = 0 then unat y else (unat y * unat x ^ unat k) mod unat q)"
  using assms
proof (induction q y x k rule: power_loop.induct)
  case (1 q y x k)
  show ?case
  proof (cases "k = 0")
    case True
    then show ?thesis by (subst power_loop.simps) simp
  next
    case False
    define y' where "y' = (if k AND 1 \<noteq> 0 then (y * x) mod q else y)"
    define x' where "x' = (x * x) mod q"
    define k' where "k' = drop_bit 1 k"
    have step: "power_loop q y x k = power_loop q y' x' k'"
      using False by (subst power_loop.simps) (simp add: y'_def x'_def k'_def)
    have ux': "unat x' = (unat x * unat x) mod unat q"
      using "1.prems" unat_mulmod [of x x q] by (simp add: x'_def)
    have bx': "unat x' < 2 ^ 16"
      using "1.prems" unat_mod_small [of q "x * x"] by (simp add: x'_def)
    have by': "unat y' < 2 ^ 16"
      using "1.prems" unat_mod_small [of q "y * x"] by (simp add: y'_def)
    have uk': "unat k' = unat k div 2"
      by (simp add: k'_def drop_bit_eq_div unat_div)
    have kpos: "0 < unat k" using False by (simp add: unat_gt_0)
    have IH: "unat (power_loop q y' x' k')
        = (if k' = 0 then unat y' else (unat y' * unat x' ^ unat k') mod unat q)"
      using "1.IH" [OF False] "1.prems"(1,2) bx' by'
      unfolding y'_def x'_def k'_def by blast
    have sq: "(unat x' ^ unat k') mod unat q = (unat x ^ (2 * unat k')) mod unat q"
      by (simp add: ux' power_mod power_mult power2_eq_square)
    show ?thesis
    proof (cases "odd (unat k)")
      case True
      then have uy': "unat y' = (unat y * unat x) mod unat q"
        using "1.prems" unat_mulmod [of y x q] by (simp add: y'_def and_1_odd_unat)
      from True have kk: "unat k = Suc (2 * unat k')"
        by (simp add: uk')
      have ymod: "unat y' mod unat q = unat y'"
        by (simp add: uy')
      have "(unat y' * unat x' ^ unat k') mod unat q
          = ((unat y * unat x) mod unat q * (unat x ^ (2 * unat k') mod unat q)) mod unat q"
        by (metis sq uy' mod_mult_right_eq)
      also have "\<dots> = (unat y * unat x * unat x ^ (2 * unat k')) mod unat q"
        by (simp add: mod_mult_eq)
      also have "\<dots> = (unat y * unat x ^ unat k) mod unat q"
        by (simp add: kk mult.assoc)
      finally have main: "(unat y' * unat x' ^ unat k') mod unat q
          = (unat y * unat x ^ unat k) mod unat q" .
      show ?thesis
      proof (cases "k' = 0")
        case True
        then have "unat k' = 0" by simp
        with main ymod show ?thesis using False IH step True by simp
      next
        case False
        with main show ?thesis using \<open>k \<noteq> 0\<close> IH step by simp
      qed
    next
      case False
      then have uy': "y' = y"
        by (simp add: y'_def and_1_odd_unat)
      from False have kk: "unat k = 2 * unat k'"
        by (simp add: uk')
      have k'pos: "k' \<noteq> 0"
        using kk kpos by (auto simp: unat_eq_zero)
      have "(unat y' * unat x' ^ unat k') mod unat q
          = (unat y * (unat x ^ (2 * unat k') mod unat q)) mod unat q"
        by (metis sq uy' mod_mult_right_eq)
      also have "\<dots> = (unat y * unat x ^ unat k) mod unat q"
        by (simp add: kk mod_mult_right_eq)
      finally show ?thesis using \<open>k \<noteq> 0\<close> IH step k'pos by simp
    qed
  qed
qed


lemma power_bounded:
  assumes "0 < unat q" and "unat q \<le> 2 ^ 16" and "unat x < 2 ^ 16"
  shows "power x k q = Inr (power_loop q 1 x k)"
    and "unat (power_loop q 1 x k) = (if k = 0 then 1 else unat x ^ unat k mod unat q)"
proof -
  have "0 < q" using assms(1) by (simp add: unat_gt_0 word_neq_0_conv)
  then show "power x k q = Inr (power_loop q 1 x k)"
    by (simp add: power_def)
  show "unat (power_loop q 1 x k) = (if k = 0 then 1 else unat x ^ unat k mod unat q)"
    using power_loop_correct [OF assms(1,2,3), of 1 k] by simp
qed

text \<open>
  C5, as the code has it. For a modulus \<open>0 < q \<le> 2 ^ 16\<close> and a base \<open>x < 2 ^ 16\<close>,
  no 32-bit product in \<^verbatim>\<open>power\<close> wraps, the assertion \<^verbatim>\<open>q > 0\<close> holds, and the call
  returns \<open>1\<close> for \<open>k = 0\<close> and \<open>x ^ k mod q\<close> for every other exponent \<open>k\<close>
  (the two agree as soon as \<open>q \<ge> 2\<close>).
\<close>

theorem power_correct_bounded:
  assumes "0 < unat q" and "unat q \<le> 2 ^ 16" and "unat x < 2 ^ 16"
  shows "\<exists>r. power x k q = Inr r
           \<and> unat r = (if k = 0 then 1 else unat x ^ unat k mod unat q)"
  using power_bounded [OF assms] by blast

theorem power_correct_bounded_witness:
  "0 < unat (7::uint32) \<and> unat (7::uint32) \<le> 2 ^ 16 \<and> unat (3::uint32) < 2 ^ 16
   \<and> (\<exists>r. power 3 5 7 = Inr r \<and> unat r = 3 ^ 5 mod 7)"
  using power_correct_bounded [of 7 3 5] by simp

text \<open>
  C5 as stated fails. With no bound on \<open>x\<close> the square \<^verbatim>\<open>x * x\<close> wraps:
  \<^verbatim>\<open>power(65536, 2, 7)\<close> returns \<open>0\<close>, and \<open>65536 ^ 2 mod 7 = 4\<close>. And for \<open>q = 1\<close>
  the call with \<open>k = 0\<close> returns \<open>1\<close>, which is not \<open>x ^ 0 mod 1 = 0\<close>.
\<close>

theorem power_unbounded_counterexample:
  "power 65536 2 7 = Inr 0 \<and> (65536::nat) ^ 2 mod 7 = 4
   \<and> power 5 0 1 = Inr 1 \<and> (5::nat) ^ 0 mod 1 = 0"
proof -
  have "power 65536 2 7 = Inr 0" by code_simp
  moreover have "power 5 0 1 = Inr 1" by code_simp
  ultimately show ?thesis by simp
qed

section \<open>Properties of \<^verbatim>\<open>inverse\<close>\<close>

declare inverse_loop.simps [simp del]

lemma abs_diff_opposite:
  fixes x y g :: int
  assumes "x * y \<le> 0" and "0 \<le> g"
  shows "\<bar>x - g * y\<bar> = \<bar>x\<bar> + g * \<bar>y\<bar>"
proof -
  consider "y = 0" | "0 < y" "x \<le> 0" | "y < 0" "0 \<le> x"
    using assms(1) by (cases "y = 0"; cases "0 < y") (auto simp: mult_le_0_iff)
  then show ?thesis
  proof cases
    case 1
    then show ?thesis by simp
  next
    case 2
    then have "0 \<le> g * y" using assms(2) by simp
    with 2 show ?thesis by (simp add: abs_if)
  next
    case 3
    then have "g * y \<le> 0" using assms(2) by (simp add: mult_nonneg_nonpos)
    with 3 show ?thesis by (simp add: abs_if algebra_simps)
  qed
qed

lemma euclid_step_int:
  fixes a b U1 U2 V1 V2 N Q g :: int
  assumes a: "1 \<le> a" and b: "0 < b"
    and bz1: "a = N * U1 + Q * V1" and bz2: "b = N * U2 + Q * V2"
    and cu: "a * \<bar>U2\<bar> + b * \<bar>U1\<bar> = Q" and cv: "a * \<bar>V2\<bar> + b * \<bar>V1\<bar> = N"
    and su: "U1 * U2 \<le> 0" and sv: "V1 * V2 \<le> 0"
    and g: "g = a div b"
  shows "a - g * b = a mod b"
    and "a mod b = N * (U1 - g * U2) + Q * (V1 - g * V2)"
    and "b * \<bar>U1 - g * U2\<bar> + (a mod b) * \<bar>U2\<bar> = Q"
    and "b * \<bar>V1 - g * V2\<bar> + (a mod b) * \<bar>V2\<bar> = N"
    and "U2 * (U1 - g * U2) \<le> 0"
    and "V2 * (V1 - g * V2) \<le> 0"
    and "\<bar>U1 - g * U2\<bar> \<le> Q" and "\<bar>V1 - g * V2\<bar> \<le> N"
    and "\<bar>U2\<bar> \<le> Q" and "\<bar>V2\<bar> \<le> N"
proof -
  have g0: "0 \<le> g" using a b g by (simp add: pos_imp_zdiv_nonneg_iff)
  show m: "a - g * b = a mod b" by (simp add: g minus_div_mult_eq_mod)
  have m0: "0 \<le> a mod b" using b by simp
  show "a mod b = N * (U1 - g * U2) + Q * (V1 - g * V2)"
  proof -
    have "a - g * b = N * (U1 - g * U2) + Q * (V1 - g * V2)"
      by (subst bz1, subst bz2) (simp add: algebra_simps)
    then show ?thesis using m by simp
  qed
  have au: "\<bar>U1 - g * U2\<bar> = \<bar>U1\<bar> + g * \<bar>U2\<bar>"
    using su g0 by (rule abs_diff_opposite)
  have av: "\<bar>V1 - g * V2\<bar> = \<bar>V1\<bar> + g * \<bar>V2\<bar>"
    using sv g0 by (rule abs_diff_opposite)
  show cu': "b * \<bar>U1 - g * U2\<bar> + (a mod b) * \<bar>U2\<bar> = Q"
  proof -
    have "b * (\<bar>U1\<bar> + g * \<bar>U2\<bar>) + (a - g * b) * \<bar>U2\<bar> = a * \<bar>U2\<bar> + b * \<bar>U1\<bar>"
      by (simp add: algebra_simps)
    then show ?thesis using au m cu by simp
  qed
  show cv': "b * \<bar>V1 - g * V2\<bar> + (a mod b) * \<bar>V2\<bar> = N"
  proof -
    have "b * (\<bar>V1\<bar> + g * \<bar>V2\<bar>) + (a - g * b) * \<bar>V2\<bar> = a * \<bar>V2\<bar> + b * \<bar>V1\<bar>"
      by (simp add: algebra_simps)
    then show ?thesis using av m cv by simp
  qed
  show "U2 * (U1 - g * U2) \<le> 0"
  proof -
    have "U2 * (U1 - g * U2) = U1 * U2 - g * (U2 * U2)" by (simp add: algebra_simps)
    moreover have "0 \<le> g * (U2 * U2)" using g0 by simp
    ultimately show ?thesis using su by linarith
  qed
  show "V2 * (V1 - g * V2) \<le> 0"
  proof -
    have "V2 * (V1 - g * V2) = V1 * V2 - g * (V2 * V2)" by (simp add: algebra_simps)
    moreover have "0 \<le> g * (V2 * V2)" using g0 by simp
    ultimately show ?thesis using sv by linarith
  qed
  have le_of_mult: "x \<le> b * x" if "0 \<le> x" for x :: int
    using that b mult_right_mono [of 1 b x] by simp
  have le_of_mult_a: "x \<le> a * x" if "0 \<le> x" for x :: int
    using that a mult_right_mono [of 1 a x] by simp
  show "\<bar>U1 - g * U2\<bar> \<le> Q"
  proof -
    have "\<bar>U1 - g * U2\<bar> \<le> b * \<bar>U1 - g * U2\<bar>" by (rule le_of_mult) simp
    moreover have "0 \<le> (a mod b) * \<bar>U2\<bar>" using m0 by simp
    ultimately show ?thesis using cu' by linarith
  qed
  show "\<bar>V1 - g * V2\<bar> \<le> N"
  proof -
    have "\<bar>V1 - g * V2\<bar> \<le> b * \<bar>V1 - g * V2\<bar>" by (rule le_of_mult) simp
    moreover have "0 \<le> (a mod b) * \<bar>V2\<bar>" using m0 by simp
    ultimately show ?thesis using cv' by linarith
  qed
  show "\<bar>U2\<bar> \<le> Q"
  proof -
    have "\<bar>U2\<bar> \<le> a * \<bar>U2\<bar>" by (rule le_of_mult_a) simp
    moreover have "0 \<le> b * \<bar>U1\<bar>" using b by simp
    ultimately show ?thesis using cu by linarith
  qed
  show "\<bar>V2\<bar> \<le> N"
  proof -
    have "\<bar>V2\<bar> \<le> a * \<bar>V2\<bar>" by (rule le_of_mult_a) simp
    moreover have "0 \<le> b * \<bar>V1\<bar>" using b by simp
    ultimately show ?thesis using cv by linarith
  qed
qed


lemma euclid_inv_init:
  assumes "0 < sint n" and "0 < sint q"
  shows "euclid_inv n q (euclid_init n q)"
  using assms by (simp add: euclid_inv_def bezout_inv_def euclid_init_def)

lemma sint_abs_eqI:
  fixes w :: "32 word"
  assumes "w = word_of_int k" and "\<bar>k\<bar> \<le> sint (m :: 32 word)"
  shows "sint w = k"
proof (rule sint_eqI [OF assms(1)])
  have "sint m < 2 ^ 31" using sint_lt [of m] by simp
  with assms(2) show "- (2 ^ 31) \<le> k" and "k < 2 ^ 31" by linarith+
qed

lemma euclid_inv_step:
  assumes inv: "euclid_inv n q s" and pos: "0 < sint (r2 s)"
  shows "euclid_inv n q (euclid_step s)"
proof -
  let ?a = "sint (r1 s)" and ?b = "sint (r2 s)"
  let ?U1 = "sint (u1 s)" and ?U2 = "sint (u2 s)"
  let ?V1 = "sint (v1 s)" and ?V2 = "sint (v2 s)"
  let ?N = "sint n" and ?Q = "sint q"
  define g where "g = ?a div ?b"
  have a: "1 \<le> ?a"
    and bz1: "?a = ?N * ?U1 + ?Q * ?V1" and bz2: "?b = ?N * ?U2 + ?Q * ?V2"
    and cu: "?a * \<bar>?U2\<bar> + ?b * \<bar>?U1\<bar> = ?Q" and cv: "?a * \<bar>?V2\<bar> + ?b * \<bar>?V1\<bar> = ?N"
    and su: "?U1 * ?U2 \<le> 0" and sv: "?V1 * ?V2 \<le> 0"
    and gc: "gcd ?a ?b = gcd ?N ?Q"
    using inv unfolding euclid_inv_def bezout_inv_def by blast+
  note st = euclid_step_int [OF a pos bz1 bz2 cu cv su sv g_def]
  have sg: "sint (sdiv32 (r1 s) (r2 s)) = g"
    using a pos by (simp add: sint_sdiv32_nonneg g_def)
  have R1: "sint (r1 (euclid_step s)) = ?b"
    by (simp add: euclid_step_def Let_def)
  have R2: "sint (r2 (euclid_step s)) = ?a mod ?b"
    using a pos by (simp add: sint_euclid_step_r2)
  have U1: "sint (u1 (euclid_step s)) = ?U2"
    by (simp add: euclid_step_def Let_def)
  have V1: "sint (v1 (euclid_step s)) = ?V2"
    by (simp add: euclid_step_def Let_def)
  have U2: "sint (u2 (euclid_step s)) = ?U1 - g * ?U2"
  proof (rule sint_abs_eqI)
    show "u2 (euclid_step s) = word_of_int (?U1 - g * ?U2)"
      by (simp add: euclid_step_def Let_def sg [symmetric])
    show "\<bar>?U1 - g * ?U2\<bar> \<le> ?Q" by (rule st)
  qed
  have V2: "sint (v2 (euclid_step s)) = ?V1 - g * ?V2"
  proof (rule sint_abs_eqI)
    show "v2 (euclid_step s) = word_of_int (?V1 - g * ?V2)"
      by (simp add: euclid_step_def Let_def sg [symmetric])
    show "\<bar>?V1 - g * ?V2\<bar> \<le> ?N" by (rule st)
  qed
  have m0: "0 \<le> ?a mod ?b" using pos by simp
  have gc': "gcd ?b (?a mod ?b) = gcd ?N ?Q"
    using gc by (simp add: gcd.commute [of ?a ?b] gcd_red_int [symmetric])
  show ?thesis
    unfolding euclid_inv_def bezout_inv_def R1 R2 U1 U2 V1 V2
    using st pos m0 gc' bz2 by (simp add: mult.commute)
qed


lemma sint_unat_small:
  fixes w :: "32 word"
  assumes "unat w < 2 ^ 31"
  shows "sint w = int (unat w)"
proof (rule sint_eqI)
  show "w = word_of_int (int (unat w))" by simp
  show "- (2 ^ 31) \<le> int (unat w)" by (rule order_trans [of _ 0]) simp_all
  have "int (unat w) < int (2 ^ 31)" using assms by (simp only: of_nat_less_iff)
  then show "int (unat w) < 2 ^ 31" by simp
qed

lemma unat_sint_nonneg:
  fixes w :: "32 word"
  assumes "0 \<le> sint w"
  shows "int (unat w) = sint w"
proof -
  have "sint w < 2 ^ 32" using sint_lt [of w] by simp
  then have "take_bit 32 (sint w) = sint w"
    using assms by (intro take_bit_int_eq_self) auto
  then show ?thesis by (simp add: uint_sint)
qed

lemma sint_ranges:
  fixes w :: "32 word"
  assumes "2 \<le> unat w" and "unat w < 2 ^ 31"
  shows "sint w = int (unat w)" and "0 < sint w" and "1 < sint w"
proof -
  show s: "sint w = int (unat w)" using assms(2) by (rule sint_unat_small)
  have "1 < int (unat w)" using assms(1) by linarith
  then show "1 < sint w" by (simp only: s)
  then show "0 < sint w" by linarith
qed

lemma euclid_inv_asserts:
  assumes "euclid_inv n q s"
  shows "euclid_asserts n q s = None"
proof -
  have bz1: "sint (r1 s) = sint n * sint (u1 s) + sint q * sint (v1 s)"
    and bz2: "sint (r2 s) = sint n * sint (u2 s) + sint q * sint (v2 s)"
    and nn: "0 \<le> sint (r1 s)"
    using assms unfolding euclid_inv_def bezout_inv_def by blast+
  have "r1 s = word_of_int (sint (r1 s))" by simp
  also have "\<dots> = n * u1 s + q * v1 s" by (simp only: bz1) simp
  finally have w1: "r1 s = n * u1 s + q * v1 s" .
  have "r2 s = word_of_int (sint (r2 s))" by simp
  also have "\<dots> = n * u2 s + q * v2 s" by (simp only: bz2) simp
  finally have w2: "r2 s = n * u2 s + q * v2 s" .
  from nn have w3: "0 \<le>s r1 s" by (simp add: word_sle_eq)
  show ?thesis
    using w1 w2 w3 by (simp add: euclid_asserts_def)
qed

lemma loop_head_inv:
  assumes "0 < sint n" and "0 < sint q" and "loop_head n q s"
  shows "euclid_inv n q s"
  using assms(3)
proof (induction rule: loop_head.induct)
  case start
  show ?case using assms(1,2) by (rule euclid_inv_init)
next
  case (iter s)
  then show ?case by (simp add: euclid_inv_step word_sless_alt)
qed

lemma inverse_loop_inv:
  assumes "euclid_inv n q s" and "loop_head n q s"
  shows "\<exists>s'. inverse_loop n q s = Inr s' \<and> euclid_inv n q s' \<and> loop_head n q s'
              \<and> sint (r2 s') = 0"
  using assms
proof (induction n q s rule: inverse_loop.induct)
  case (1 n q s)
  show ?case
  proof (cases "0 <s r2 s")
    case True
    have ok: "euclid_asserts n q s = None"
      using "1.prems"(1) by (rule euclid_inv_asserts)
    have inv': "euclid_inv n q (euclid_step s)"
      using "1.prems"(1) True by (simp add: euclid_inv_step word_sless_alt)
    have head': "loop_head n q (euclid_step s)"
      using "1.prems"(2) True ok by (rule loop_head.iter)
    have "inverse_loop n q s = inverse_loop n q (euclid_step s)"
      using True ok by (subst inverse_loop.simps) simp
    with "1.IH" [OF True ok inv' head'] show ?thesis by simp
  next
    case False
    have "0 \<le> sint (r2 s)"
      using "1.prems"(1) unfolding euclid_inv_def by blast
    with False have "sint (r2 s) = 0" by (simp add: word_sless_alt)
    moreover have "inverse_loop n q s = Inr s"
      using False by (subst inverse_loop.simps) simp
    ultimately show ?thesis using "1.prems" by simp
  qed
qed

lemma inverse_loop_gcd:
  assumes "0 < sint n" and "0 < sint q"
  shows "\<exists>s'. inverse_loop n q (euclid_init n q) = Inr s' \<and> euclid_inv n q s'
              \<and> loop_head n q s' \<and> r2 s' = 0 \<and> sint (r1 s') = gcd (sint n) (sint q)"
proof -
  from inverse_loop_inv [OF euclid_inv_init [OF assms] loop_head.start]
  obtain s' where s': "inverse_loop n q (euclid_init n q) = Inr s'" "euclid_inv n q s'"
    "loop_head n q s'" "sint (r2 s') = 0"
    by blast
  have "gcd (sint (r1 s')) (sint (r2 s')) = gcd (sint n) (sint q)" and "1 \<le> sint (r1 s')"
    using s'(2) unfolding euclid_inv_def by blast+
  then have "sint (r1 s') = gcd (sint n) (sint q)"
    using s'(4) by simp
  moreover have "r2 s' = 0" using s'(4) by (simp add: signed_eq_0_iff)
  ultimately show ?thesis using s' by blast
qed


lemma smod_normalise:
  fixes k Q :: int
  assumes "0 < Q"
  shows "(if k smod Q < 0 then k smod Q + Q else k smod Q) = k mod Q"
proof -
  have e: "k mod Q = k smod Q + Q * of_bool (sgn k \<noteq> sgn Q \<and> \<not> Q dvd k)"
    by (rule modulo_int_eq_signed_modulo_int)
  have r: "- Q < k smod Q" "k smod Q < Q"
    using smod_int_range [of Q k] assms by auto
  have m: "0 \<le> k mod Q" "k mod Q < Q" using assms by simp_all
  show ?thesis
  proof (cases "sgn k \<noteq> sgn Q \<and> \<not> Q dvd k")
    case True
    then have "k mod Q = k smod Q + Q" using e by simp
    with m r show ?thesis by simp
  next
    case False
    then have "k mod Q = k smod Q" using e by simp
    with m r show ?thesis by simp
  qed
qed

lemma sint_pos_neq:
  fixes q :: "32 word"
  assumes "0 < sint q"
  shows "q \<noteq> 0" and "q \<noteq> - 1"
  using assms by auto

lemma srem32_pos:
  assumes "0 < sint q"
  shows "\<exists>w. srem32 a q = Inr w \<and> sint w = sint a smod sint q"
proof -
  have "\<bar>sint a smod sint q\<bar> \<le> sint q"
    using smod_int_range [of "sint q" "sint a"] assms by auto
  then have "sint (word_of_int (sint a smod sint q) :: 32 word) = sint a smod sint q"
    by (intro sint_abs_eqI [of _ _ q]) simp_all
  then show ?thesis
    using sint_pos_neq [OF assms] by (simp add: srem32_def)
qed

lemma inverse_finish_unit:
  assumes inv: "euclid_inv n q s" and one: "r1 s = 1" and zero: "r2 s = 0"
    and q: "1 < sint q" and n: "0 < sint n"
  shows "\<exists>v. sint v = sint (u1 s) mod sint q
           \<and> (sint n * sint v) mod sint q = 1
           \<and> (inverse_finish n q s = Inr (Some v)
                \<or> inverse_finish n q s = Inl (AssertFail Inverse_result))
           \<and> (sint n * sint v < 2 ^ 31 \<longrightarrow> inverse_finish n q s = Inr (Some v))"
proof -
  let ?Q = "sint q" and ?N = "sint n" and ?U = "sint (u1 s)"
  have q0: "0 < ?Q" using q by simp
  from srem32_pos [OF q0, of "u1 s"] obtain u where
    u: "srem32 (u1 s) q = Inr u" "sint u = ?U smod ?Q" by blast
  define v where "v = (if u <s 0 then u + q else u)"
  have ur: "- ?Q < sint u" "sint u < ?Q"
    using smod_int_range [of ?Q ?U] q0 u(2) by auto
  have sv: "sint v = (if sint u < 0 then sint u + ?Q else sint u)"
  proof (cases "sint u < 0")
    case True
    have "sint (u + q) = sint u + ?Q"
    proof (rule sint_abs_eqI [of _ _ q])
      show "u + q = word_of_int (sint u + ?Q)" by simp
      show "\<bar>sint u + ?Q\<bar> \<le> ?Q" using ur True by simp
    qed
    with True show ?thesis by (simp add: v_def word_sless_alt)
  next
    case False
    then show ?thesis by (simp add: v_def word_sless_alt)
  qed
  have vm: "sint v = ?U mod ?Q"
    unfolding sv u(2) by (rule smod_normalise [OF q0])
  have bz: "1 = ?N * ?U + ?Q * sint (v1 s)"
    using inv one unfolding euclid_inv_def bezout_inv_def by simp
  have "(?N * sint v) mod ?Q = (?N * ?U) mod ?Q"
    by (simp add: vm mod_mult_right_eq)
  also have "\<dots> = (?N * ?U + ?Q * sint (v1 s)) mod ?Q" by simp
  also have "\<dots> = 1" using bz q by simp
  finally have prod: "(?N * sint v) mod ?Q = 1" .
  from srem32_pos [OF q0, of "n * v"] obtain m where
    m: "srem32 (n * v) q = Inr m" "sint m = sint (n * v) smod ?Q" by blast
  have fin: "inverse_finish n q s
      = (if m = 1 then Inr (Some v) else Inl (AssertFail Inverse_result))"
    using one u(1) m(1) by (simp add: inverse_finish_def v_def Let_def)
  have small: "inverse_finish n q s = Inr (Some v)" if lt: "?N * sint v < 2 ^ 31"
  proof -
    have v0: "0 \<le> sint v" using vm q0 by simp
    have "sint (n * v) = ?N * sint v"
    proof (rule sint_eqI)
      show "n * v = word_of_int (?N * sint v)" by simp
      have "0 \<le> ?N * sint v" using n v0 by simp
      then show "- (2 ^ 31) \<le> ?N * sint v" by (rule order_trans [rotated]) simp
      show "?N * sint v < 2 ^ 31" by (rule lt)
    qed
    moreover have "0 \<le> ?N * sint v" using n v0 by simp
    ultimately have "sint m = (?N * sint v) mod ?Q"
      using m(2) q0 by (simp add: smod_mod_positive)
    then have sm1: "sint m = 1" using prod by simp
    have "m = word_of_int (sint m)" by simp
    also have "\<dots> = 1" by (simp only: sm1) simp
    finally have "m = 1" .
    then show ?thesis using fin by simp
  qed
  show ?thesis
    using vm prod fin small by (intro exI [of _ v]) auto
qed


lemma inverse_unit:
  assumes n: "0 < sint n" and q: "1 < sint q" and g: "gcd (sint n) (sint q) = 1"
  shows "\<exists>v. 0 \<le> sint v \<and> sint v < sint q
           \<and> (sint n * sint v) mod sint q = 1
           \<and> (inverse n q = Inr (Some v) \<or> inverse n q = Inl (AssertFail Inverse_result))
           \<and> (sint n * sint v < 2 ^ 31 \<longrightarrow> inverse n q = Inr (Some v))"
proof -
  have q0: "0 < sint q" using q by simp
  from inverse_loop_gcd [OF n q0] obtain s where
    s: "inverse_loop n q (euclid_init n q) = Inr s" "euclid_inv n q s" "r2 s = 0"
       "sint (r1 s) = gcd (sint n) (sint q)"
    by blast
  have "r1 s = word_of_int (sint (r1 s))" by simp
  also have "\<dots> = 1" by (simp only: s(4) g) simp
  finally have one: "r1 s = 1" .
  have fin: "inverse n q = inverse_finish n q s"
    by (simp add: inverse_def s(1))
  from inverse_finish_unit [OF s(2) one s(3) q n] obtain v where
    v: "sint v = sint (u1 s) mod sint q" "(sint n * sint v) mod sint q = 1"
       "inverse_finish n q s = Inr (Some v) \<or> inverse_finish n q s = Inl (AssertFail Inverse_result)"
       "sint n * sint v < 2 ^ 31 \<longrightarrow> inverse_finish n q s = Inr (Some v)"
    by blast
  have "0 \<le> sint v" "sint v < sint q" using v(1) q0 by simp_all
  then show ?thesis using v fin by (intro exI [of _ v]) simp
qed

lemma inverse_nonunit:
  assumes n: "0 < sint n" and q: "0 < sint q" and g: "gcd (sint n) (sint q) \<noteq> 1"
  shows "inverse n q = Inr None"
proof -
  from inverse_loop_gcd [OF n q] obtain s where
    s: "inverse_loop n q (euclid_init n q) = Inr s" "sint (r1 s) = gcd (sint n) (sint q)"
    by blast
  have "r1 s \<noteq> 1"
  proof
    assume "r1 s = 1"
    then have "sint (r1 s) = 1" by simp
    with s(2) g show False by simp
  qed
  then show ?thesis
    by (simp add: inverse_def s(1) inverse_finish_def)
qed

lemma inverse_sound:
  assumes n: "0 < sint n" and q: "1 < sint q" and v: "inverse n q = Inr (Some v)"
  shows "0 \<le> sint v" and "sint v < sint q" and "(sint n * sint v) mod sint q = 1"
    and "gcd (sint n) (sint q) = 1"
proof -
  have q0: "0 < sint q" using q by simp
  show g: "gcd (sint n) (sint q) = 1"
  proof (rule ccontr)
    assume "gcd (sint n) (sint q) \<noteq> 1"
    then have "inverse n q = Inr None" using n q0 by (intro inverse_nonunit)
    with v show False by simp
  qed
  from inverse_unit [OF n q g] v
  show "0 \<le> sint v" and "sint v < sint q" and "(sint n * sint v) mod sint q = 1"
    by auto
qed


lemma inverse_error:
  assumes "0 < sint n" and "1 < sint q" and "inverse n q = Inl e"
  shows "e = AssertFail Inverse_result"
proof (cases "gcd (sint n) (sint q) = 1")
  case True
  from inverse_unit [OF assms(1,2) True] assms(3) show ?thesis by auto
next
  case False
  have "0 < sint q" using assms(2) by simp
  from inverse_nonunit [OF assms(1) this False] assms(3) show ?thesis by simp
qed


lemma int_lt_2p31:
  assumes "a < (2::nat) ^ 31"
  shows "int a < 2 ^ 31"
proof -
  have "int a < int (2 ^ 31)" using assms by (simp only: of_nat_less_iff)
  then show ?thesis by simp
qed

text \<open>
  C3, as the code has it. For \<open>2 \<le> q < 2 ^ 31\<close> (so that \<^verbatim>\<open>(int32_t) q\<close> is \<open>q\<close>) and
  \<open>1 \<le> n < q\<close>: if \<open>gcd n q \<noteq> 1\<close>, \<^verbatim>\<open>inverse\<close> returns \<^verbatim>\<open>false\<close>, an ordinary return.
  If \<open>gcd n q = 1\<close>, it never returns \<^verbatim>\<open>false\<close>; every value \<open>v\<close> it returns lies in
  \<open>[0, q)\<close> and satisfies \<open>n * v mod q = 1\<close>; and for \<open>q \<le> 46341\<close>, where the product
  \<^verbatim>\<open>(int32_t) n * u1\<close> of the last assertion stays below \<open>2 ^ 31\<close>, it does return.
\<close>

theorem inverse_correct:
  assumes q2: "2 \<le> unat q" and qb: "unat q < 2 ^ 31" and n1: "1 \<le> unat n" and nq: "unat n < unat q"
  shows "(gcd (unat n) (unat q) \<noteq> 1 \<longrightarrow> inverse n q = Inr None)
       \<and> (gcd (unat n) (unat q) = 1 \<longrightarrow>
            inverse n q \<noteq> Inr None
          \<and> (\<forall>v. inverse n q = Inr (Some v) \<longrightarrow> unat v < unat q \<and> (unat n * unat v) mod unat q = 1)
          \<and> (unat q \<le> 46341 \<longrightarrow> (\<exists>v. inverse n q = Inr (Some v))))"
proof -
  have sq: "sint q = int (unat q)" using qb by (rule sint_unat_small)
  have sn: "sint n = int (unat n)" using nq qb by (intro sint_unat_small) simp
  have "0 < int (unat n)" using n1 by linarith
  then have n0: "0 < sint n" by (simp only: sn)
  have "1 < int (unat q)" using q2 by linarith
  then have q1: "1 < sint q" by (simp only: sq)
  then have q0: "0 < sint q" by linarith
  have gc: "gcd (sint n) (sint q) = int (gcd (unat n) (unat q))"
    by (simp only: sn sq gcd_int_int_eq)
  show ?thesis
  proof (intro conjI impI)
    assume "gcd (unat n) (unat q) \<noteq> 1"
    then have "gcd (sint n) (sint q) \<noteq> 1" by (simp add: gc)
    then show "inverse n q = Inr None" using n0 q0 by (intro inverse_nonunit)
  next
    assume g1: "gcd (unat n) (unat q) = 1"
    then have "gcd (sint n) (sint q) = 1" by (simp add: gc)
    from inverse_unit [OF n0 q1 this] obtain v where
      v: "0 \<le> sint v" "sint v < sint q" "(sint n * sint v) mod sint q = 1"
         "inverse n q = Inr (Some v) \<or> inverse n q = Inl (AssertFail Inverse_result)"
         "sint n * sint v < 2 ^ 31 \<longrightarrow> inverse n q = Inr (Some v)"
      by blast
    have uv: "int (unat v) = sint v" using v(1) by (rule unat_sint_nonneg)
    have vq: "unat v < unat q" using v(2) by (simp only: sq uv [symmetric] of_nat_less_iff)
    have "int ((unat n * unat v) mod unat q) = (sint n * sint v) mod sint q"
      by (simp only: sn sq uv [symmetric] of_nat_mult of_nat_mod)
    then have pm: "(unat n * unat v) mod unat q = 1" using v(3) by simp
    show "inverse n q \<noteq> Inr None" using v(4) by auto
    show "\<forall>w. inverse n q = Inr (Some w) \<longrightarrow> unat w < unat q \<and> (unat n * unat w) mod unat q = 1"
      using v(4) vq pm by auto
    show "\<exists>w. inverse n q = Inr (Some w)" if small: "unat q \<le> 46341"
    proof -
      have "unat n \<le> 46340" "unat v \<le> 46340" using small nq vq by simp_all
      then have "unat n * unat v \<le> 46340 * 46340" by (rule mult_le_mono)
      then have "int (unat n * unat v) < 2 ^ 31" by (intro int_lt_2p31) simp
      then have "sint n * sint v < 2 ^ 31" by (simp only: sn uv [symmetric] of_nat_mult)
      with v(5) show ?thesis by blast
    qed
  qed
qed


theorem inverse_correct_witness:
  "inverse 4 6 = Inr None
   \<and> (\<exists>v. inverse 3 7 = Inr (Some v) \<and> unat v < 7 \<and> (3 * unat v) mod 7 = 1)"
proof -
  have a: "gcd (unat (4::uint32)) (unat (6::uint32)) \<noteq> 1" by code_simp
  have b: "gcd (unat (3::uint32)) (unat (7::uint32)) = 1" by code_simp
  have "inverse 4 6 = Inr None"
    using inverse_correct [of 6 4] a by simp
  moreover have "(\<forall>v. inverse 3 7 = Inr (Some v) \<longrightarrow> unat v < 7 \<and> (3 * unat v) mod 7 = 1)
     \<and> (\<exists>v. inverse 3 7 = Inr (Some v))"
    using inverse_correct [of 7 3] b by simp
  ultimately show ?thesis by blast
qed

text \<open>
  C3 as stated fails, in two ways. For \<open>q \<ge> 2 ^ 31\<close> the conversion \<^verbatim>\<open>r2 = q\<close> gives a
  negative \<^verbatim>\<open>int32_t\<close>, the loop is skipped and every \<open>n \<noteq> 1\<close> is reported as not
  invertible: \<^verbatim>\<open>inverse(2, 2147483649)\<close> returns \<^verbatim>\<open>false\<close> although \<open>gcd 2 2147483649 = 1\<close>.
  And inside the range the tools accept, the product of the last assertion can wrap:
  \<^verbatim>\<open>inverse(65520, 65521)\<close> finds the inverse \<open>65520\<close>, and then
  \<open>65520 * 65520 \<ge> 2 ^ 31\<close> makes the assertion fail instead of returning.
\<close>

theorem inverse_counterexample:
  "inverse 2 2147483649 = Inr None \<and> gcd (2::int) 2147483649 = 1
   \<and> inverse 65520 65521 = Inl (AssertFail Inverse_result) \<and> gcd (65520::int) 65521 = 1"
proof -
  have "inverse 2 2147483649 = Inr None" by code_simp
  moreover have "gcd (2::int) 2147483649 = 1" by code_simp
  moreover have "inverse 65520 65521 = Inl (AssertFail Inverse_result)" by code_simp
  moreover have "gcd (65520::int) 65521 = 1" by code_simp
  ultimately show ?thesis by blast
qed

text \<open>
  C6. For \<open>1 \<le> n < 100000\<close> and \<open>2 \<le> q < 2 ^ 16\<close> (the ranges the tools accept), the
  \<^verbatim>\<open>int32_t\<close> values of \<^verbatim>\<open>n\<close> and \<^verbatim>\<open>q\<close> are \<open>n\<close> and \<open>q\<close>; every state in which control
  reaches the loop test satisfies \<open>r1 = n * u1 + q * v1\<close>, \<open>r2 = n * u2 + q * v2\<close> and
  \<open>r1 \<ge> 0\<close> over the integers; whenever the loop body is entered from such a state the
  three assertions pass; and the loop ends, in a state with \<open>r2 = 0\<close> whose \<open>r1\<close> is
  positive and equals \<open>gcd n q\<close>.
\<close>

theorem euclid_loop_invariants:
  assumes n1: "1 \<le> unat n" and nb: "unat n < 100000" and q2: "2 \<le> unat q" and qb: "unat q < 2 ^ 16"
  shows "sint n = int (unat n) \<and> sint q = int (unat q)
       \<and> (\<forall>s. loop_head n q s \<longrightarrow>
             bezout_inv n q s \<and> (0 <s r2 s \<longrightarrow> euclid_asserts n q s = None))
       \<and> (\<exists>s'. inverse_loop n q (euclid_init n q) = Inr s' \<and> loop_head n q s'
              \<and> r2 s' = 0 \<and> 0 < sint (r1 s')
              \<and> sint (r1 s') = int (gcd (unat n) (unat q)))"
proof -
  have sq: "sint q = int (unat q)" using qb by (intro sint_unat_small) simp
  have sn: "sint n = int (unat n)" using nb by (intro sint_unat_small) simp
  have "0 < int (unat n)" using n1 by linarith
  then have n0: "0 < sint n" by (simp only: sn)
  have "0 < int (unat q)" using q2 by linarith
  then have q0: "0 < sint q" by (simp only: sq)
  have gc: "gcd (sint n) (sint q) = int (gcd (unat n) (unat q))"
    by (simp only: sn sq gcd_int_int_eq)
  have head: "bezout_inv n q s \<and> (0 <s r2 s \<longrightarrow> euclid_asserts n q s = None)"
    if "loop_head n q s" for s
  proof -
    have inv: "euclid_inv n q s" using n0 q0 that by (rule loop_head_inv)
    then have "bezout_inv n q s" unfolding euclid_inv_def by blast
    moreover have "euclid_asserts n q s = None" using inv by (rule euclid_inv_asserts)
    ultimately show ?thesis by simp
  qed
  from inverse_loop_gcd [OF n0 q0] obtain s' where
    s': "inverse_loop n q (euclid_init n q) = Inr s'" "euclid_inv n q s'" "loop_head n q s'"
        "r2 s' = 0" "sint (r1 s') = gcd (sint n) (sint q)"
    by blast
  have "1 \<le> sint (r1 s')" using s'(2) unfolding euclid_inv_def by blast
  then have "0 < sint (r1 s')" by linarith
  with s' gc have ex: "\<exists>s'. inverse_loop n q (euclid_init n q) = Inr s' \<and> loop_head n q s'
              \<and> r2 s' = 0 \<and> 0 < sint (r1 s')
              \<and> sint (r1 s') = int (gcd (unat n) (unat q))"
    by (intro exI [of _ s']) simp
  show ?thesis using sn sq head ex by blast
qed

theorem euclid_loop_invariants_witness:
  "bezout_inv 3 7 (euclid_step (euclid_init 3 7))
   \<and> euclid_asserts 3 7 (euclid_step (euclid_init 3 7)) = None
   \<and> (\<exists>s'. inverse_loop 3 7 (euclid_init 3 7) = Inr s' \<and> r2 s' = 0 \<and> sint (r1 s') = 1)"
proof -
  have h: "loop_head 3 7 (euclid_step (euclid_init 3 7))"
  proof (rule loop_head.iter [OF loop_head.start])
    show "0 <s r2 (euclid_init 3 7)" by code_simp
    show "euclid_asserts 3 7 (euclid_init 3 7) = None" by code_simp
  qed
  have p: "0 <s r2 (euclid_step (euclid_init 3 7))" by code_simp
  have g: "gcd (unat (3::uint32)) (unat (7::uint32)) = 1" by code_simp
  from euclid_loop_invariants [of 3 7] h p g show ?thesis by simp blast
qed



section \<open>Properties of the geometric tables\<close>

declare power_table_loop.simps [simp del]

lemma map_geo_Suc:
  "map (geo q b x) [0..<Suc m] = x # map (geo q b ((x * b) mod q)) [0..<m]"
proof -
  have "map (geo q b x) [0..<Suc m] = geo q b x 0 # map (geo q b x) (map Suc [0..<m])"
    by (simp only: upt_conv_Cons [of 0 "Suc m"] map_Suc_upt list.map)
  then show ?thesis by (simp add: comp_def)
qed

lemma power_table_loop_geo:
  assumes "q \<noteq> 0"
  shows "power_table_loop n q b i x = (map (geo q b x) [0..<unat n - unat i], None)"
  using assms
proof (induction n q b i x rule: power_table_loop.induct)
  case (1 n q b i x)
  show ?case
  proof (cases "i < n")
    case True
    then have d: "unat n - unat i = Suc (unat n - unat (i + 1))"
      by (simp add: unat_succ_less word_less_nat_alt)
    have "power_table_loop n q b (i + 1) ((x * b) mod q)
        = (map (geo q b ((x * b) mod q)) [0..<unat n - unat (i + 1)], None)"
      using "1.IH" [OF True] "1.prems" by simp
    then show ?thesis
      using True "1.prems"
      by (subst power_table_loop.simps) (simp add: d map_geo_Suc del: upt_Suc)
  next
    case False
    then have "unat n - unat i = 0" by (simp add: word_less_nat_alt)
    then show ?thesis using False by (subst power_table_loop.simps) simp
  qed
qed

lemma geo_closed:
  assumes "0 < unat q" and "unat q \<le> 2 ^ 16" and "unat b < 2 ^ 16" and "unat x < 2 ^ 16"
  shows "unat (geo q b x k) = (if k = 0 then unat x else (unat x * unat b ^ k) mod unat q)"
  using assms(4)
proof (induction k arbitrary: x)
  case 0
  show ?case by simp
next
  case (Suc k)
  let ?x' = "(x * b) mod q"
  have ux': "unat ?x' = (unat x * unat b) mod unat q"
    using Suc.prems assms(3) by (rule unat_mulmod)
  have bx': "unat ?x' < 2 ^ 16"
    using assms(1,2) by (rule unat_mod_small)
  have "unat (geo q b x (Suc k)) = unat (geo q b ?x' k)" by simp
  also have "\<dots> = (if k = 0 then unat ?x' else (unat ?x' * unat b ^ k) mod unat q)"
    using bx' by (rule Suc.IH)
  also have "\<dots> = (unat x * unat b ^ Suc k) mod unat q"
  proof (cases "k = 0")
    case True
    then show ?thesis by (simp add: ux')
  next
    case False
    have "((unat x * unat b) mod unat q * unat b ^ k) mod unat q
        = (unat x * unat b * unat b ^ k) mod unat q"
      by (rule mod_mult_left_eq)
    with False show ?thesis by (simp add: ux' mult.assoc)
  qed
  finally show ?case by simp
qed


lemma unat_lt_2p16:
  fixes x q :: "32 word"
  assumes "x < q" and "unat q \<le> 2 ^ 16"
  shows "unat x < 2 ^ 16"
  using assms by (simp add: word_less_nat_alt)

lemma geo_closed_reduced:
  assumes "0 < unat q" and "unat q \<le> 2 ^ 16" and "b < q" and "x < q"
  shows "unat (geo q b x k) = (unat x * unat b ^ k) mod unat q"
proof -
  have "unat x < unat q" using assms(4) by (simp add: word_less_nat_alt)
  then have "unat x mod unat q = unat x" by simp
  then show ?thesis
    using geo_closed [OF assms(1,2) unat_lt_2p16 [OF assms(3,2)] unat_lt_2p16 [OF assms(4,2)], of k]
    by simp
qed

lemma power_table_entries:
  assumes "q \<noteq> 0"
  shows "snd (power_table name n q x b) = None"
    and "entries (fst (power_table name n q x b)) = map (geo q b x) [0..<unat n]"
  using assms by (simp_all add: power_table_def power_table_loop_geo)

lemma power_geo:
  assumes q2: "2 \<le> unat q" and qb: "unat q \<le> 2 ^ 16" and b: "b < q" and i: "i < 2 ^ 32"
  shows "power b (of_nat i) q = Inr (geo q b 1 i)"
proof -
  have q0: "0 < unat q" using q2 by simp
  have one: "(1 :: uint32) < q" using q2 by (simp add: word_less_nat_alt)
  have ui: "unat (of_nat i :: uint32) = i"
    using i by (simp add: unat_of_nat)
  define r where "r = power_loop q 1 b (of_nat i)"
  have r: "power b (of_nat i) q = Inr r"
    "unat r = (if (of_nat i :: uint32) = 0 then 1 else unat b ^ unat (of_nat i :: uint32) mod unat q)"
    unfolding r_def by (rule power_bounded [OF q0 qb unat_lt_2p16 [OF b qb]])+
  have "unat r = unat b ^ i mod unat q"
  proof (cases "i = 0")
    case True
    then show ?thesis using r(2) q2 by simp
  next
    case False
    then have "(of_nat i :: uint32) \<noteq> 0" using ui by (metis unat_0)
    then show ?thesis using r(2) ui by simp
  qed
  also have "\<dots> = unat (geo q b 1 i)"
    using geo_closed_reduced [OF q0 qb b one, of i] by simp
  finally have "r = geo q b 1 i" by (simp add: word_unat_eq_iff)
  with r(1) show ?thesis by simp
qed


text \<open>
  C4, as the code has it. For \<open>2 \<le> q \<le> 2 ^ 16\<close> and \<open>x0, b\<close> in \<open>[0, q)\<close>, and every
  \<open>n\<close>, \<^verbatim>\<open>power_table\<close> prints \<open>n\<close> entries without failing, entry \<open>i\<close> is
  \<open>x0 * b ^ i mod q\<close>, and entry \<open>i\<close> of the forward table (\<open>x0 = 1\<close>) is what
  \<^verbatim>\<open>power(b, i, q)\<close> returns.
\<close>

theorem power_table_geometric:
  assumes q2: "2 \<le> unat q" and qb: "unat q \<le> 2 ^ 16" and x: "x0 < q" and b: "b < q"
  shows "snd (power_table name n q x0 b) = None
       \<and> length (entries (fst (power_table name n q x0 b))) = unat n
       \<and> (\<forall>i < unat n. unat (entries (fst (power_table name n q x0 b)) ! i)
                          = (unat x0 * unat b ^ i) mod unat q)
       \<and> (\<forall>i < unat n. power b (of_nat i) q = Inr (entries (fst (psi_power_table n q b)) ! i))"
proof -
  have q0: "0 < unat q" using q2 by simp
  then have qn: "q \<noteq> 0" by (simp add: unat_gt_0)
  note e = power_table_entries [OF qn]
  have "unat (entries (fst (power_table name n q x0 b)) ! i) = (unat x0 * unat b ^ i) mod unat q"
    if "i < unat n" for i
    using that by (simp add: e geo_closed_reduced [OF q0 qb b x])
  moreover have "power b (of_nat i) q = Inr (entries (fst (psi_power_table n q b)) ! i)"
    if "i < unat n" for i
  proof -
    have "unat n < 2 ^ 32" using unsigned_less [of n] by simp
    with that have "i < 2 ^ 32" by simp
    from power_geo [OF q2 qb b this] that show ?thesis
      by (simp add: psi_power_table_def e)
  qed
  ultimately show ?thesis by (simp add: e)
qed

theorem power_table_geometric_witness:
  "snd (power_table ''t'' 8 17 2 3) = None
   \<and> length (entries (fst (power_table ''t'' 8 17 2 3))) = 8
   \<and> unat (entries (fst (power_table ''t'' 8 17 2 3)) ! 5) = (2 * 3 ^ 5) mod 17
   \<and> power 3 5 17 = Inr (entries (fst (psi_power_table 8 17 3)) ! 5)"
proof -
  have h: "2 \<le> unat (17 :: uint32)" "unat (17 :: uint32) \<le> 2 ^ 16"
    "(2 :: uint32) < 17" "(3 :: uint32) < 17"
    by simp_all
  have i: "(5 :: nat) < unat (8 :: uint32)" by simp
  from power_table_geometric [OF h, of "''t''" 8]
  have f: "snd (power_table ''t'' 8 17 2 3) = None"
    "length (entries (fst (power_table ''t'' 8 17 2 3))) = unat (8 :: uint32)"
    "\<forall>i < unat (8 :: uint32). unat (entries (fst (power_table ''t'' 8 17 2 3)) ! i)
            = (unat (2 :: uint32) * unat (3 :: uint32) ^ i) mod unat (17 :: uint32)"
    "\<forall>i < unat (8 :: uint32). power 3 (of_nat i) 17
            = Inr (entries (fst (psi_power_table 8 17 3)) ! i)"
    by blast+
  have "power 3 (of_nat 5) 17 = Inr (entries (fst (psi_power_table 8 17 3)) ! 5)"
    using f(4) i by blast
  then have "power 3 5 17 = Inr (entries (fst (psi_power_table 8 17 3)) ! 5)"
    by simp
  moreover have "unat (entries (fst (power_table ''t'' 8 17 2 3)) ! 5) = (2 * 3 ^ 5) mod 17"
    using f(3) i by auto
  ultimately show ?thesis using f(1,2) by simp
qed

text \<open>
  C4 as stated fails: with no upper bound on \<open>q\<close> the product \<^verbatim>\<open>x * b\<close> wraps. For
  \<open>n = 2\<close>, \<open>q = 100000\<close> and \<open>x0 = b = 99999\<close> the second entry printed is \<open>65409\<close>,
  and \<open>99999 * 99999 mod 100000 = 1\<close>.
\<close>

theorem power_table_counterexample:
  "entries (fst (power_table [] 2 100000 99999 99999)) = [99999, 65409]
   \<and> ((99999::nat) * 99999 ^ 1) mod 100000 = 1"
proof -
  have "entries (fst (power_table [] 2 100000 99999 99999)) = [99999, 65409]" by code_simp
  then show ?thesis by simp
qed



section \<open>Properties of the level table\<close>

declare shoup_inner.simps [simp del] shoup_outer.simps [simp del] print_table_loop.simps [simp del]

lemma shoup_inner_result:
  assumes "q \<noteq> 0" and "unat n \<le> length (tab s)"
  shows "(\<exists>s'. shoup_inner n q t y j x s = Inr s' \<and> length (tab s') = length (tab s))
       \<or> shoup_inner n q t y j x s = Inl (AssertFail Shoup_cursor)
       \<or> shoup_inner n q t y j x s = Inl (AssertFail Shoup_bound)"
  using assms
proof (induction n q t y j x s rule: shoup_inner.induct)
  case (1 n q t y j x s)
  show ?case
  proof (cases "j < t \<and> cursor s = t + j \<and> cursor s < n")
    case False
    then show ?thesis by (subst (1 2 3) shoup_inner.simps) auto
  next
    case True
    then have jt: "j < t" and cj: "cursor s = t + j" and cn: "cursor s < n" by blast+
    from cn have "unat (cursor s) < unat n" by (simp add: word_less_nat_alt)
    then have lt: "unat (cursor s) < length (tab s)"
      using "1.prems"(2) by linarith
    let ?s = "\<lparr> cursor = cursor s + 1, tab = (tab s)[unat (cursor s) := x],
                writes = writes s @ [unat (cursor s)] \<rparr>"
    have step: "shoup_inner n q t y j x s = shoup_inner n q t y (j + 1) ((x * y) mod q) ?s"
      using jt cj [symmetric] cn lt "1.prems"(1) by (subst shoup_inner.simps) simp
    have "unat n \<le> length (tab ?s)" using "1.prems"(2) by simp
    from "1.IH" [OF jt _ _ _ "1.prems"(1) "1.prems"(1) this] cj cn lt
    show ?thesis unfolding step by simp
  qed
qed


lemma unat_double:
  fixes t :: "32 word"
  assumes "unat t < 2 ^ 31"
  shows "unat (2 * t) = 2 * unat t" and "unat (push_bit 1 t) = 2 * unat t"
proof -
  have "unat (2 :: 32 word) * unat t < 2 ^ LENGTH(32)" using assms by simp
  then have "unat (2 * t) = unat (2 :: 32 word) * unat t"
    by (simp only: unat_mult_lem)
  then show a: "unat (2 * t) = 2 * unat t" by simp
  have "push_bit 1 t = 2 * t" by (simp add: push_bit_eq_mult)
  then show "unat (push_bit 1 t) = 2 * unat t" using a by (simp only:)
qed

lemma shoup_outer_result:
  assumes "q \<noteq> 0" and "unat n \<le> length (tab s)" and "unat n < 2 ^ 31" and "unat t = 2 ^ k"
  shows "(\<exists>s'. shoup_outer n q phi t s = Inr s' \<and> length (tab s') = length (tab s))
       \<or> shoup_outer n q phi t s = Inl (AssertFail Shoup_cursor)
       \<or> shoup_outer n q phi t s = Inl (AssertFail Shoup_bound)"
  using assms
proof (induction n q phi t s arbitrary: k rule: shoup_outer.induct)
  case (1 n q phi t s)
  show ?case
  proof (cases "t < n")
    case False
    then show ?thesis by (subst (1 2 3) shoup_outer.simps) simp
  next
    case True
    then have "unat t < unat n" by (simp add: word_less_nat_alt)
    then have tb: "unat t < 2 ^ 31" using "1.prems"(3) by linarith
    note d = unat_double [OF tb]
    have "unat (2 * t) \<noteq> 0" using d(1) "1.prems"(4) by simp
    then have t2: "2 * t \<noteq> 0" by (simp add: unat_eq_zero)
    have qpos: "0 < q" using "1.prems"(1) by (simp add: word_neq_0_conv)
    define y where "y = power_loop q 1 phi (n div (2 * t))"
    have pw: "power phi (n div (2 * t)) q = Inr y" using qpos by (simp add: power_def y_def)
    have t': "unat (push_bit 1 t) = 2 ^ Suc k" using d(2) "1.prems"(4) by simp
    from shoup_inner_result [OF "1.prems"(1,2), of t y 0 1]
    consider s1 where "shoup_inner n q t y 0 1 s = Inr s1" "length (tab s1) = length (tab s)"
      | "shoup_inner n q t y 0 1 s = Inl (AssertFail Shoup_cursor)"
      | "shoup_inner n q t y 0 1 s = Inl (AssertFail Shoup_bound)"
      by blast
    then show ?thesis
    proof cases
      case 1
      have step: "shoup_outer n q phi t s = shoup_outer n q phi (push_bit 1 t) s1"
        using True t2 pw 1(1) by (subst shoup_outer.simps) simp
      have "unat n \<le> length (tab s1)" using "1.prems"(2) 1(2) by simp
      from "1.IH" [OF True t2 pw 1(1) "1.prems"(1) this "1.prems"(3) t'] 1(2)
      show ?thesis unfolding step by simp
    next
      case 2
      then show ?thesis using True t2 pw by (subst (1 2 3) shoup_outer.simps) simp
    next
      case 3
      then show ?thesis using True t2 pw by (subst (1 2 3) shoup_outer.simps) simp
    qed
  qed
qed

lemma build_shoup_table_result:
  assumes "q \<noteq> 0" and "length a = unat n" and "2 \<le> unat n" and "unat n < 2 ^ 31"
  shows "(\<exists>s. build_shoup_table a n q phi = Inr s \<and> length (tab s) = unat n)
       \<or> build_shoup_table a n q phi = Inl (AssertFail Shoup_cursor)
       \<or> build_shoup_table a n q phi = Inl (AssertFail Shoup_bound)"
proof -
  let ?s = "\<lparr> cursor = 1, tab = a[0 := 0], writes = [0] \<rparr>"
  have ne: "a \<noteq> []" using assms(2,3) by auto
  have l: "unat n \<le> length (tab ?s)" using assms(2) by simp
  have "unat (1 :: uint32) = 2 ^ 0" by simp
  from shoup_outer_result [OF assms(1) l assms(4) this, of phi] ne assms(2)
  show ?thesis by (simp add: build_shoup_table_def)
qed

lemma print_table_loop_ok:
  assumes "unat n \<le> length a"
  shows "print_table_loop a n i = (map ((!) a) [unat i..<unat n], None)"
  using assms
proof (induction a n i rule: print_table_loop.induct)
  case (1 a n i)
  show ?case
  proof (cases "i < n")
    case True
    then have lt: "unat i < unat n" by (simp add: word_less_nat_alt)
    have s: "unat (i + 1) = Suc (unat i)" using True by (rule unat_succ_less)
    have "\<not> length a \<le> unat i" using lt "1.prems" by simp
    from "1.IH" [OF True this "1.prems"] True this lt show ?thesis
      by (subst print_table_loop.simps) (simp add: s upt_conv_Cons)
  next
    case False
    then have "unat n \<le> unat i" by (simp add: word_less_nat_alt)
    with False show ?thesis by (subst print_table_loop.simps) simp
  qed
qed


lemma store_run_length [simp]: "length (store_run q y a i x k) = length a"
  by (induction k arbitrary: a i x) simp_all

lemma store_run_nth:
  assumes "i + k \<le> length a" and "m < length a"
  shows "store_run q y a i x k ! m = (if i \<le> m \<and> m < i + k then geo q y x (m - i) else a ! m)"
  using assms
proof (induction k arbitrary: a i x)
  case 0
  show ?case by auto
next
  case (Suc k)
  have "store_run q y (a[i := x]) (Suc i) ((x * y) mod q) k ! m
      = (if Suc i \<le> m \<and> m < Suc i + k then geo q y ((x * y) mod q) (m - Suc i)
         else a[i := x] ! m)"
    using Suc.prems by (intro Suc.IH) simp_all
  moreover have "geo q y ((x * y) mod q) (m - Suc i) = geo q y x (m - i)" if "Suc i \<le> m"
  proof -
    from that have "m - i = Suc (m - Suc i)" by simp
    then show ?thesis by simp
  qed
  ultimately show ?case using Suc.prems by (auto simp: nth_list_update)
qed

lemma unat_add_small:
  fixes a b n :: "32 word"
  assumes "unat a + unat b \<le> unat n"
  shows "unat (a + b) = unat a + unat b"
proof -
  have "unat n < 2 ^ 32" using unsigned_less [of n] by simp
  with assms have "unat a + unat b < 2 ^ LENGTH(32)" by simp
  then show ?thesis by (simp only: unat_add_lem)
qed

lemma shoup_inner_run:
  assumes "q \<noteq> 0" and "2 * unat t \<le> unat n" and "unat n \<le> length (tab s)"
    and "unat j \<le> unat t" and "cursor s = t + j"
  shows "shoup_inner n q t y j x s
       = Inr \<lparr> cursor = t + t,
               tab = store_run q y (tab s) (unat t + unat j) x (unat t - unat j),
               writes = writes s @ [unat t + unat j ..< 2 * unat t] \<rparr>"
  using assms
proof (induction n q t y j x s rule: shoup_inner.induct)
  case (1 n q t y j x s)
  note q = "1.prems"(1) and tn = "1.prems"(2) and len = "1.prems"(3)
    and jt = "1.prems"(4) and cur = "1.prems"(5)
  show ?case
  proof (cases "j < t")
    case True
    then have ujt: "unat j < unat t" by (simp add: word_less_nat_alt)
    have uc: "unat (cursor s) = unat t + unat j"
      unfolding cur using ujt tn by (intro unat_add_small [of t j n]) simp
    have cn: "cursor s < n" using uc ujt tn by (simp add: word_less_nat_alt)
    have cl: "\<not> length (tab s) \<le> unat (cursor s)" using uc ujt tn len by simp
    have uj1: "unat (j + 1) = Suc (unat j)" using True by (rule unat_succ_less)
    let ?s = "\<lparr> cursor = cursor s + 1, tab = (tab s)[unat (cursor s) := x],
                writes = writes s @ [unat (cursor s)] \<rparr>"
    have step: "shoup_inner n q t y j x s = shoup_inner n q t y (j + 1) ((x * y) mod q) ?s"
      using True cur [symmetric] cn cl q by (subst shoup_inner.simps) simp
    have c': "cursor ?s = t + (j + 1)" by (simp add: cur)
    have l': "unat n \<le> length (tab ?s)" using len by simp
    have j': "unat (j + 1) \<le> unat t" using ujt uj1 by simp
    have "\<not> cursor s \<noteq> t + j" using cur by simp
    note IH = "1.IH" [OF True this _ cl q q tn l' j' c']
    have d: "unat t - unat j = Suc (unat t - Suc (unat j))" using ujt by simp
    have w: "[unat t + unat j ..< 2 * unat t]
        = (unat t + unat j) # [unat t + Suc (unat j) ..< 2 * unat t]"
      using ujt by (simp add: upt_conv_Cons)
    show ?thesis
      unfolding step using IH cn by (simp add: uj1 uc d w)
  next
    case False
    then have "unat t \<le> unat j" by (simp add: word_less_nat_alt)
    with jt have e: "unat j = unat t" by simp
    then have "j = t" by (simp add: word_unat_eq_iff)
    then show ?thesis
      using False cur by (subst shoup_inner.simps) simp
  qed
qed


lemma pow2_unat_bound:
  fixes n :: "32 word"
  assumes "unat n = 2 ^ m"
  shows "m < 32"
proof -
  have "unat n < 2 ^ 32" using unsigned_less [of n] by simp
  then have "(2::nat) ^ m < 2 ^ 32" using assms by simp
  then show ?thesis by (rule power_less_imp_less_exp [rotated]) simp
qed

lemma shoup_outer_run:
  assumes "q \<noteq> 0" and "unat n = 2 ^ m" and "unat t = 2 ^ k" and "k \<le> m"
    and "cursor s = t" and "length (tab s) = unat n"
  shows "\<exists>s'. shoup_outer n q phi t s = Inr s'
           \<and> length (tab s') = unat n
           \<and> writes s' = writes s @ [2 ^ k ..< 2 ^ m]
           \<and> (\<forall>i < 2 ^ k. tab s' ! i = tab s ! i)
           \<and> (\<forall>l j. k \<le> l \<and> l < m \<and> j < 2 ^ l \<longrightarrow>
                 tab s' ! (2 ^ l + j) = geo q (stage_y n q phi l) 1 j)"
  using assms
proof (induction "m - k" arbitrary: k t s)
  case 0
  then have "k = m" by simp
  then have "unat t = unat n" using "0.prems"(2,3) by simp
  then have "\<not> t < n" by (simp add: word_less_nat_alt)
  then have "shoup_outer n q phi t s = Inr s" by (subst shoup_outer.simps) simp
  then show ?case using \<open>k = m\<close> "0.prems"(6) by auto
next
  case (Suc d)
  note q = Suc.prems(1) and n = Suc.prems(2) and t = Suc.prems(3)
    and cur = Suc.prems(5) and len = Suc.prems(6)
  from Suc.hyps(2) have km: "k < m" by simp
  have m32: "m < 32" using n by (rule pow2_unat_bound)
  have lt: "t < n" using km n t by (simp add: word_less_nat_alt)
  have "(2::nat) ^ k \<le> 2 ^ 30" using km m32 by (intro power_increasing) simp_all
  then have "(2::nat) ^ k < 2 ^ 31" by simp
  then have tb: "unat t < 2 ^ 31" using t by simp
  note dbl = unat_double [OF tb]
  have "unat (2 * t) \<noteq> 0" using dbl(1) t by simp
  then have t2: "2 * t \<noteq> 0" by (simp add: unat_eq_zero)
  have qpos: "0 < q" using q by (simp add: word_neq_0_conv)
  have tw: "t = of_nat (2 ^ k)" using t by (metis of_nat_unat ucast_id)
  define y where "y = stage_y n q phi k"
  have pw: "power phi (n div (2 * t)) q = Inr y"
    using qpos by (simp add: power_def y_def stage_y_def tw)
  have le: "2 * unat t \<le> unat n"
  proof -
    have "(2::nat) ^ Suc k \<le> 2 ^ m" using km by (intro power_increasing) simp_all
    then show ?thesis using t n by simp
  qed
  let ?s1 = "\<lparr> cursor = t + t, tab = store_run q y (tab s) (2 ^ k) 1 (2 ^ k),
               writes = writes s @ [2 ^ k ..< 2 * 2 ^ k] \<rparr>"
  have inner: "shoup_inner n q t y 0 1 s = Inr ?s1"
    using shoup_inner_run [OF q le, of s 0 y 1] len cur by (simp add: t)
  have step: "shoup_outer n q phi t s = shoup_outer n q phi (push_bit 1 t) ?s1"
    using lt t2 pw inner by (subst shoup_outer.simps) simp
  have t': "unat (push_bit 1 t) = 2 ^ Suc k" using dbl(2) t by simp
  have c': "cursor ?s1 = push_bit 1 t" by (simp add: push_bit_eq_mult)
  have l': "length (tab ?s1) = unat n" using len by simp
  have d': "d = m - Suc k" using Suc.hyps(2) by simp
  from Suc.hyps(1) [OF d' q n t' _ c' l'] km obtain s' where
    s': "shoup_outer n q phi (push_bit 1 t) ?s1 = Inr s'"
      "length (tab s') = unat n"
      "writes s' = writes ?s1 @ [2 ^ Suc k ..< 2 ^ m]"
      "\<forall>i < 2 ^ Suc k. tab s' ! i = tab ?s1 ! i"
      "\<forall>l j. Suc k \<le> l \<and> l < m \<and> j < 2 ^ l \<longrightarrow>
         tab s' ! (2 ^ l + j) = geo q (stage_y n q phi l) 1 j"
    by auto
  have fit: "2 ^ k + 2 ^ k \<le> length (tab s)" using le t len by simp
  have w: "writes s' = writes s @ [2 ^ k ..< 2 ^ m]"
  proof -
    have "(2::nat) ^ k \<le> 2 * 2 ^ k" by simp
    moreover have "2 * (2::nat) ^ k \<le> 2 ^ m"
      using power_increasing [of "Suc k" m "2::nat"] km by simp
    ultimately have "[(2::nat) ^ k ..< 2 ^ m] = [2 ^ k ..< 2 * 2 ^ k] @ [2 * 2 ^ k ..< 2 ^ m]"
      by (metis le_Suc_ex upt_add_eq_append)
    then show ?thesis using s'(3) by simp
  qed
  have low: "tab s' ! i = tab s ! i" if "i < 2 ^ k" for i
  proof -
    have "tab s' ! i = tab ?s1 ! i" using s'(4) that by simp
    also have "\<dots> = tab s ! i"
      using that fit by (simp add: store_run_nth)
    finally show ?thesis .
  qed
  have stage: "tab s' ! (2 ^ l + j) = geo q (stage_y n q phi l) 1 j"
    if "k \<le> l \<and> l < m \<and> j < 2 ^ l" for l j
  proof (cases "l = k")
    case True
    have "tab s' ! (2 ^ k + j) = tab ?s1 ! (2 ^ k + j)" using s'(4) that True by simp
    also have "\<dots> = geo q y 1 j"
      using that True fit by (simp add: store_run_nth)
    finally show ?thesis by (simp add: True y_def)
  next
    case False
    with that have "Suc k \<le> l \<and> l < m \<and> j < 2 ^ l" by simp
    with s'(5) show ?thesis by blast
  qed
  show ?case
    unfolding step using s'(1,2) w low stage by blast
qed


lemma build_shoup_table_run:
  assumes "q \<noteq> 0" and "unat n = 2 ^ m" and "length a = unat n"
  shows "\<exists>s. build_shoup_table a n q phi = Inr s
           \<and> length (tab s) = unat n
           \<and> writes s = [0 ..< unat n]
           \<and> tab s ! 0 = 0
           \<and> (\<forall>l j. l < m \<and> j < 2 ^ l \<longrightarrow>
                 tab s ! (2 ^ l + j) = geo q (stage_y n q phi l) 1 j)"
proof -
  let ?s0 = "\<lparr> cursor = 1, tab = a[0 := 0], writes = [0] \<rparr>"
  have ne: "a \<noteq> []" using assms(2,3) by auto
  have b: "build_shoup_table a n q phi = shoup_outer n q phi 1 ?s0"
    using ne by (simp add: build_shoup_table_def)
  have t: "unat (1 :: uint32) = 2 ^ 0" by simp
  have c: "cursor ?s0 = 1" by simp
  have l: "length (tab ?s0) = unat n" using assms(3) by simp
  from shoup_outer_run [OF assms(1,2) t _ c l, of phi] obtain s where
    s: "shoup_outer n q phi 1 ?s0 = Inr s" "length (tab s) = unat n"
      "writes s = writes ?s0 @ [2 ^ 0 ..< 2 ^ m]"
      "\<forall>i < 2 ^ 0. tab s ! i = tab ?s0 ! i"
      "\<forall>l j. 0 \<le> l \<and> l < m \<and> j < 2 ^ l \<longrightarrow>
         tab s ! (2 ^ l + j) = geo q (stage_y n q phi l) 1 j"
    by auto
  have "writes s = 0 # [1 ..< 2 ^ m]" using s(3) by simp
  also have "\<dots> = [0 ..< 2 ^ m]" by (simp add: upt_conv_Cons)
  finally have w: "writes s = [0 ..< unat n]" by (simp add: assms(2))
  have z: "tab s ! 0 = 0" using s(4) ne by simp
  show ?thesis
    unfolding b using s(1,2,5) w z by auto
qed

text \<open>
  C2. For \<open>n = 2 ^ m\<close>, a modulus \<open>q > 0\<close> and a block of \<open>n\<close> cells, \<^verbatim>\<open>build_shoup_table\<close>
  returns: neither \<^verbatim>\<open>assert(i == t+j)\<close> nor \<^verbatim>\<open>assert(i < n)\<close> fails at any store. The
  stores, in order, go to the indices \<open>0, 1, \<dots>, n - 1\<close>: index \<open>0\<close> first, where \<open>0\<close>
  is stored and stays, then each index of \<open>1 \<dots> n - 1\<close> once, and none outside.
\<close>

theorem shoup_index_coverage:
  assumes "unat n = 2 ^ m" and "q \<noteq> 0" and "length a = unat n"
  shows "\<exists>s. build_shoup_table a n q phi = Inr s
           \<and> writes s = [0 ..< unat n]
           \<and> distinct (writes s) \<and> set (writes s) = {0 ..< unat n}
           \<and> length (tab s) = unat n \<and> tab s ! 0 = 0"
proof -
  from build_shoup_table_run [OF assms(2,1,3), of phi] obtain s where
    "build_shoup_table a n q phi = Inr s" "length (tab s) = unat n"
    "writes s = [0 ..< unat n]" "tab s ! 0 = 0"
    by blast
  then show ?thesis by (intro exI [of _ s]) simp
qed

theorem shoup_index_coverage_witness:
  "\<exists>s. build_shoup_table (replicate 8 7) 8 17 9 = Inr s
        \<and> writes s = [0, 1, 2, 3, 4, 5, 6, 7] \<and> length (tab s) = 8 \<and> tab s ! 0 = 0"
proof -
  have h: "unat (8 :: uint32) = 2 ^ 3" "(17 :: uint32) \<noteq> 0"
    "length (replicate 8 (7 :: uint32)) = unat (8 :: uint32)"
    by simp_all
  have u: "[0 ..< unat (8 :: uint32)] = [0, 1, 2, 3, 4, 5, 6, 7]"
    by (simp add: upt_rec)
  from shoup_index_coverage [OF h, of 9] obtain s where
    s: "build_shoup_table (replicate 8 7) 8 17 9 = Inr s"
      "writes s = [0 ..< unat (8 :: uint32)]"
      "length (tab s) = unat (8 :: uint32)" "tab s ! 0 = 0"
    by blast
  have "writes s = [0, 1, 2, 3, 4, 5, 6, 7]" using s(2) by (simp only: u)
  moreover have "length (tab s) = 8" using s(3) by simp
  ultimately show ?thesis using s(1,4) by blast
qed


lemma geo_Suc_right: "geo q b x (Suc k) = (geo q b x k * b) mod q"
  by (induction k arbitrary: x) simp_all

lemma stage_exponent:
  fixes n :: "32 word"
  assumes n: "unat n = 2 ^ m" and l: "l < m"
  shows "unat (n div (2 * 2 ^ l)) = 2 ^ m div (2 * 2 ^ l)"
    and "0 < (2::nat) ^ m div (2 * 2 ^ l)"
proof -
  have m32: "m < 32" using n by (rule pow2_unat_bound)
  have le30: "(2::nat) ^ l \<le> 2 ^ 30" using l m32 by (intro power_increasing) simp_all
  then have l32: "(2::nat) ^ l < 2 ^ 32" by simp
  have "unat (of_nat (2 ^ l) :: 32 word) = 2 ^ l mod 2 ^ LENGTH(32)" by (rule unat_of_nat)
  also have "\<dots> = 2 ^ l" using l32 by simp
  finally have u: "unat (2 ^ l :: 32 word) = 2 ^ l" by simp
  have "unat (2 ^ l :: 32 word) < 2 ^ 31" using le30 u by simp
  from unat_double(1) [OF this] u
  have d: "unat (2 * 2 ^ l :: 32 word) = 2 * 2 ^ l" by simp
  show "unat (n div (2 * 2 ^ l)) = 2 ^ m div (2 * 2 ^ l)"
    by (simp only: unat_div d n)
  have "(2::nat) ^ Suc l \<le> 2 ^ m" using l by (intro power_increasing) simp_all
  then have "2 * (2::nat) ^ l \<le> 2 ^ m" by simp
  then show "0 < (2::nat) ^ m div (2 * 2 ^ l)"
    by (simp add: div_greater_zero_iff)
qed

text \<open>
  C1, as the code has it. For \<open>n = 2 ^ m\<close>, \<open>2 \<le> q \<le> 2 ^ 16\<close>, \<open>phi < q\<close> and a block of
  \<open>n\<close> cells, \<^verbatim>\<open>build_shoup_table\<close> returns, and for every stage \<open>t = 2 ^ l < n\<close> and
  every \<open>j < t\<close>: the stage's \<^verbatim>\<open>y = power(phi, n/(2*t), q)\<close> is \<open>phi ^ (n / (2 t)) mod q\<close>;
  the entry at \<open>t\<close> is \<open>1\<close>; each later entry of the stage is the one before it times \<open>y\<close>
  modulo \<open>q\<close>; and the entry at \<open>t + j\<close> is \<open>(phi ^ (n / (2 t))) ^ j mod q\<close>.
\<close>

theorem shoup_table_entries:
  assumes n: "unat n = 2 ^ m" and q2: "2 \<le> unat q" and qb: "unat q \<le> 2 ^ 16"
    and phi: "phi < q" and len: "length a = unat n"
  shows "\<exists>s. build_shoup_table a n q phi = Inr s
           \<and> (\<forall>l j. l < m \<and> j < 2 ^ l \<longrightarrow>
                (\<exists>y. power phi (n div (2 * 2 ^ l)) q = Inr y
                   \<and> unat y = unat phi ^ (2 ^ m div (2 * 2 ^ l)) mod unat q
                   \<and> tab s ! (2 ^ l) = 1
                   \<and> (0 < j \<longrightarrow> tab s ! (2 ^ l + j) = (tab s ! (2 ^ l + (j - 1)) * y) mod q)
                   \<and> unat (tab s ! (2 ^ l + j))
                       = (unat phi ^ (2 ^ m div (2 * 2 ^ l))) ^ j mod unat q))"
proof -
  have q0: "0 < unat q" using q2 by simp
  then have qn: "q \<noteq> 0" by (auto simp: unat_gt_0)
  have one: "(1 :: uint32) < q" using q2 by (simp add: word_less_nat_alt)
  from build_shoup_table_run [OF qn n len, of phi] obtain s where
    s: "build_shoup_table a n q phi = Inr s"
      "\<forall>l j. l < m \<and> j < 2 ^ l \<longrightarrow> tab s ! (2 ^ l + j) = geo q (stage_y n q phi l) 1 j"
    by blast
  have stage: "\<exists>y. power phi (n div (2 * 2 ^ l)) q = Inr y
                   \<and> unat y = unat phi ^ (2 ^ m div (2 * 2 ^ l)) mod unat q
                   \<and> tab s ! (2 ^ l) = 1
                   \<and> (0 < j \<longrightarrow> tab s ! (2 ^ l + j) = (tab s ! (2 ^ l + (j - 1)) * y) mod q)
                   \<and> unat (tab s ! (2 ^ l + j))
                       = (unat phi ^ (2 ^ m div (2 * 2 ^ l))) ^ j mod unat q"
    if lj: "l < m \<and> j < 2 ^ l" for l j
  proof -
    let ?e = "n div (2 * 2 ^ l)" and ?E = "(2::nat) ^ m div (2 * 2 ^ l)"
    let ?y = "stage_y n q phi l"
    from lj have l: "l < m" and j: "j < 2 ^ l" by simp_all
    note ex = stage_exponent [OF n l]
    have e0: "?e \<noteq> 0" using ex by (auto simp: unat_eq_zero [symmetric])
    note pb = power_bounded [OF q0 qb unat_lt_2p16 [OF phi qb], of ?e]
    have py: "power phi ?e q = Inr ?y" using pb(1) by (simp add: stage_y_def)
    have uy: "unat ?y = unat phi ^ ?E mod unat q"
      using pb(2) e0 ex(1) by (simp add: stage_y_def)
    have yq: "?y < q" using uy q0 by (simp add: word_less_nat_alt)
    have ent: "tab s ! (2 ^ l + i) = geo q ?y 1 i" if "i < 2 ^ l" for i
      using s(2) l that by blast
    have first: "tab s ! (2 ^ l) = 1" using ent [of 0] by simp
    have rec: "tab s ! (2 ^ l + j) = (tab s ! (2 ^ l + (j - 1)) * ?y) mod q" if "0 < j"
    proof -
      from that obtain i where i: "j = Suc i" by (cases j) simp_all
      have "tab s ! (2 ^ l + j) = geo q ?y 1 (Suc i)" using ent [OF j] i by simp
      also have "\<dots> = (geo q ?y 1 i * ?y) mod q" by (rule geo_Suc_right)
      also have "geo q ?y 1 i = tab s ! (2 ^ l + i)" using ent [of i] j i by simp
      finally show ?thesis by (simp add: i)
    qed
    have "unat (tab s ! (2 ^ l + j)) = unat (geo q ?y 1 j)" using ent [OF j] by simp
    also have "\<dots> = (unat ?y) ^ j mod unat q"
      using geo_closed_reduced [OF q0 qb yq one, of j] by simp
    also have "\<dots> = (unat phi ^ ?E) ^ j mod unat q"
      by (simp only: uy power_mod)
    finally have closed: "unat (tab s ! (2 ^ l + j)) = (unat phi ^ ?E) ^ j mod unat q" .
    show ?thesis
      using py uy first rec closed by (intro exI [of _ ?y]) blast
  qed
  show ?thesis using s(1) stage by blast
qed

theorem shoup_table_entries_witness:
  "\<exists>s y. build_shoup_table (replicate 8 7) 8 17 9 = Inr s
        \<and> power 9 (8 div (2 * 2 ^ 2)) 17 = Inr y
        \<and> tab s ! (2 ^ 2) = 1
        \<and> tab s ! (2 ^ 2 + 3) = (tab s ! (2 ^ 2 + (3 - 1)) * y) mod 17
        \<and> unat (tab s ! (2 ^ 2 + 3)) = (9 ^ (2 ^ 3 div (2 * 2 ^ 2))) ^ 3 mod 17"
proof -
  have h: "unat (8 :: uint32) = 2 ^ 3" "2 \<le> unat (17 :: uint32)" "unat (17 :: uint32) \<le> 2 ^ 16"
    "(9 :: uint32) < 17" "length (replicate 8 (7 :: uint32)) = unat (8 :: uint32)"
    by simp_all
  from shoup_table_entries [OF h] obtain s where
    s: "build_shoup_table (replicate 8 7) 8 17 9 = Inr s"
      "\<forall>l j. l < 3 \<and> j < 2 ^ l \<longrightarrow>
         (\<exists>y. power 9 (8 div (2 * 2 ^ l)) 17 = Inr y
            \<and> unat y = unat (9 :: uint32) ^ (2 ^ 3 div (2 * 2 ^ l)) mod unat (17 :: uint32)
            \<and> tab s ! (2 ^ l) = 1
            \<and> (0 < j \<longrightarrow> tab s ! (2 ^ l + j) = (tab s ! (2 ^ l + (j - 1)) * y) mod 17)
            \<and> unat (tab s ! (2 ^ l + j))
                = (unat (9 :: uint32) ^ (2 ^ 3 div (2 * 2 ^ l))) ^ j mod unat (17 :: uint32))"
    by blast
  have "(2::nat) < 3 \<and> (3::nat) < 2 ^ 2" by simp
  with s(2) obtain y where
    y: "power 9 (8 div (2 * 2 ^ 2)) 17 = Inr y"
      "tab s ! (2 ^ 2) = 1"
      "(0::nat) < 3 \<longrightarrow> tab s ! (2 ^ 2 + 3) = (tab s ! (2 ^ 2 + (3 - 1)) * y) mod 17"
      "unat (tab s ! (2 ^ 2 + 3))
         = (unat (9 :: uint32) ^ (2 ^ 3 div (2 * 2 ^ 2))) ^ 3 mod unat (17 :: uint32)"
    by blast
  from y(3) have "tab s ! (2 ^ 2 + 3) = (tab s ! (2 ^ 2 + (3 - 1)) * y) mod 17" by simp
  moreover from y(4) have "unat (tab s ! (2 ^ 2 + 3)) = (9 ^ (2 ^ 3 div (2 * 2 ^ 2))) ^ 3 mod 17"
    by simp
  ultimately show ?thesis using s(1) y(1,2) by blast
qed

text \<open>
  C1 as stated fails: with no upper bound on \<open>q\<close> the product \<^verbatim>\<open>x * y\<close> wraps. For
  \<open>n = 8\<close>, \<open>q = 100000\<close> and \<open>phi = 99999\<close>, the stage \<open>t = 4\<close> has \<open>y = phi\<close>, and the
  entry at \<open>t + 2 = 6\<close> is \<open>65409\<close> where \<open>(phi ^ (8 / 8)) ^ 2 mod q = 1\<close>.
\<close>

theorem shoup_table_counterexample:
  "build_shoup_table [7, 7, 7, 7, 7, 7, 7, 7] 8 100000 99999
     = Inr \<lparr> cursor = 8, tab = [0, 1, 1, 65409, 1, 99999, 65409, 67295],
             writes = [0, 1, 2, 3, 4, 5, 6, 7] \<rparr>
   \<and> ((99999 :: nat) ^ (8 div (2 * 4))) ^ 2 mod 100000 = 1"
proof -
  have "build_shoup_table [7, 7, 7, 7, 7, 7, 7, 7] 8 100000 99999
     = Inr \<lparr> cursor = 8, tab = [0, 1, 1, 65409, 1, 99999, 65409, 67295],
             writes = [0, 1, 2, 3, 4, 5, 6, 7] \<rparr>"
    by code_simp
  then show ?thesis by simp
qed


section \<open>Properties of the command-line tools\<close>

declare primitive_loop.simps [simp del]

lemma power_error:
  assumes "power x k q = Inl e"
  shows "q = 0" and "e = AssertFail Power_q_positive"
  using assms by (auto simp: power_def word_greater_zero_iff split: if_splits)

lemma primitive_loop_no_error:
  assumes "q \<noteq> 0"
  shows "primitive_loop psi n q i \<noteq> Inl e"
  using assms
proof (induction psi n q i rule: primitive_loop.induct)
  case (1 psi n q i)
  have q: "0 < q" using "1.prems" by (simp add: word_neq_0_conv)
  show ?case
  proof (cases "i < n")
    case True
    define p where "p = power_loop q 1 psi i"
    have pw: "power psi i q = Inr p" using q by (simp add: power_def p_def)
    show ?thesis
    proof (cases "p = 1")
      case True
      with \<open>i < n\<close> pw show ?thesis by (subst primitive_loop.simps) simp
    next
      case False
      with "1.IH" [OF \<open>i < n\<close> pw False "1.prems"] \<open>i < n\<close> pw show ?thesis
        by (subst primitive_loop.simps) simp
    qed
  next
    case False
    then show ?thesis by (subst primitive_loop.simps) simp
  qed
qed

lemma primitive_loop_True:
  assumes "primitive_loop psi n q i = Inr True" and "unat i \<le> k" and "k < unat n"
  shows "power psi (of_nat k) q \<noteq> Inr 1"
  using assms
proof (induction psi n q i rule: primitive_loop.induct)
  case (1 psi n q i)
  have lt: "i < n" using "1.prems"(2,3) by (simp add: word_less_nat_alt)
  from "1.prems"(1) lt obtain p where pw: "power psi i q = Inr p" and p1: "p \<noteq> 1"
    and rest: "primitive_loop psi n q (i + 1) = Inr True"
    by (subst (asm) primitive_loop.simps) (auto split: sum.splits if_splits)
  show ?case
  proof (cases "k = unat i")
    case True
    then have "(of_nat k :: uint32) = i" by simp
    with pw p1 show ?thesis by simp
  next
    case False
    then have "unat (i + 1) \<le> k" using "1.prems"(2) lt by (simp add: unat_succ_less)
    from "1.IH" [OF lt pw p1 rest this "1.prems"(3)] show ?thesis .
  qed
qed

lemma primitive_loop_False:
  assumes "primitive_loop psi n q i = Inr False"
  shows "\<exists>k. unat i \<le> k \<and> k < unat n \<and> power psi (of_nat k) q = Inr 1"
  using assms
proof (induction psi n q i rule: primitive_loop.induct)
  case (1 psi n q i)
  have lt: "i < n"
    using "1.prems" by (subst (asm) primitive_loop.simps) (auto split: if_splits)
  then have ui: "unat i < unat n" by (simp add: word_less_nat_alt)
  from "1.prems" lt obtain p where pw: "power psi i q = Inr p"
    by (subst (asm) primitive_loop.simps) (auto split: sum.splits)
  show ?case
  proof (cases "p = 1")
    case True
    have "power psi (of_nat (unat i)) q = Inr 1" using pw True by simp
    with ui show ?thesis by blast
  next
    case False
    have rest: "primitive_loop psi n q (i + 1) = Inr False"
      using "1.prems" lt pw False by (subst (asm) primitive_loop.simps) simp
    from "1.IH" [OF lt pw False rest] obtain k where
      "unat (i + 1) \<le> k" "k < unat n" "power psi (of_nat k) q = Inr 1" by blast
    moreover have "unat i \<le> unat (i + 1)" using lt by (simp add: unat_succ_less)
    ultimately show ?thesis by (intro exI [of _ k]) simp
  qed
qed

lemma uint_of_int_small:
  assumes "0 \<le> x" and "x < 2 ^ 32"
  shows "uint (word_of_int x :: uint32) = x"
  using assms by (simp add: uint_word_of_int_eq take_bit_int_eq_self)

lemma parse_args_Inr:
  assumes "parse_args atol argv = Inr (q, n, psi)"
  shows "length argv = 4"
    and "1 < atol (argv ! 1)" and "atol (argv ! 1) < 65535" and "uint q = atol (argv ! 1)"
    and "1 < atol (argv ! 2)" and "atol (argv ! 2) < 100000" and "uint n = atol (argv ! 2)"
    and "1 < atol (argv ! 3)" and "atol (argv ! 3) < atol (argv ! 1)"
    and "uint psi = atol (argv ! 3)"
proof -
  let ?x1 = "atol (argv ! 1)" and ?x2 = "atol (argv ! 2)" and ?x3 = "atol (argv ! 3)"
  from assms show len: "length argv = 4"
    by (simp add: parse_args_def split: if_splits)
  from assms len show x1: "1 < ?x1" "?x1 < 65535"
    by (simp_all add: parse_args_def Let_def split: if_splits)
  then have q: "q = word_of_int ?x1"
    using assms len by (simp add: parse_args_def Let_def split: if_splits)
  show uq: "uint q = ?x1" unfolding q using x1 by (intro uint_of_int_small) simp_all
  from assms len x1 show x2: "1 < ?x2" "?x2 < 100000"
    by (simp_all add: parse_args_def Let_def split: if_splits)
  then have n: "n = word_of_int ?x2"
    using assms len x1 by (simp add: parse_args_def Let_def split: if_splits)
  show "uint n = ?x2" unfolding n using x2 by (intro uint_of_int_small) simp_all
  from assms len x1 x2 have x3: "1 < ?x3" "?x3 < uint (word_of_int ?x1 :: uint32)"
    by (simp_all add: parse_args_def Let_def split: if_splits)
  then show x3': "1 < ?x3" "?x3 < ?x1" using uq q by simp_all
  have psi: "psi = word_of_int ?x3"
    using assms len x1 x2 x3 by (simp add: parse_args_def Let_def split: if_splits)
  show "uint psi = ?x3" unfolding psi using x3' x1 by (intro uint_of_int_small) simp_all
qed

lemma parse_args_ranges:
  assumes "parse_args atol argv = Inr (q, n, psi)"
  shows "2 \<le> unat q" and "unat q < 65535" and "2 \<le> unat n" and "unat n < 100000"
    and "2 \<le> unat psi" and "psi < q"
proof -
  note p = parse_args_Inr [OF assms]
  have u: "int (unat q) = atol (argv ! 1)" "int (unat n) = atol (argv ! 2)"
    "int (unat psi) = atol (argv ! 3)"
    using p(4,7,10) by simp_all
  show "2 \<le> unat q" "unat q < 65535" using p(2,3) u(1) by linarith+
  show "2 \<le> unat n" "unat n < 100000" using p(5,6) u(2) by linarith+
  show "2 \<le> unat psi" using p(8) u(3) by linarith
  have "unat psi < unat q" using p(9) u(1,3) by linarith
  then show "psi < q" by (simp add: word_less_nat_alt)
qed

lemma square_pred_mod:
  fixes Q :: nat
  assumes "2 \<le> Q"
  shows "((Q - 1) * (Q - 1)) mod Q = 1"
proof -
  obtain m where Q: "Q = Suc (Suc m)"
    using assms by (metis Suc_le_D numeral_2_eq_2 Suc_le_mono)
  have "(Q - 1) * (Q - 1) = m * Q + 1" by (simp add: Q)
  then have "((Q - 1) * (Q - 1)) mod Q = (m * Q + 1) mod Q" by (simp only:)
  also have "\<dots> = 1 mod Q" by (rule mod_mult_self3)
  also have "\<dots> = 1" using assms by simp
  finally show ?thesis .
qed

lemma phi_root:
  assumes q2: "2 \<le> unat q" and qb: "unat q \<le> 2 ^ 16" and psi: "psi < q" and n: "n \<noteq> 0"
    and root: "power psi n q = Inr (q - 1)"
  shows "power ((psi * psi) mod q) n q = Inr 1"
proof -
  let ?Q = "unat q" and ?P = "unat psi" and ?N = "unat n"
  have q0: "0 < ?Q" using q2 by simp
  have pb: "?P < 2 ^ 16" using psi qb by (rule unat_lt_2p16)
  note a = power_bounded [OF q0 qb pb, of n]
  have "q \<noteq> 0" using q0 by (simp add: unat_gt_0)
  then have q1: "unat (q - 1) = ?Q - 1" by (simp add: unat_minus_one)
  have r: "?P ^ ?N mod ?Q = ?Q - 1"
    using a root n q1 by simp
  let ?phi = "(psi * psi) mod q"
  have uphi: "unat ?phi = (?P * ?P) mod ?Q" using pb pb by (rule unat_mulmod)
  have phib: "unat ?phi < 2 ^ 16" using q0 qb by (rule unat_mod_small)
  note b = power_bounded [OF q0 qb phib, of n]
  have "unat (power_loop q 1 ?phi n) = ((?P * ?P) mod ?Q) ^ ?N mod ?Q"
    using b(2) n by (simp add: uphi)
  also have "\<dots> = (?P * ?P) ^ ?N mod ?Q" by (simp add: power_mod)
  also have "\<dots> = (?P ^ ?N * ?P ^ ?N) mod ?Q" by (simp add: power_mult_distrib)
  also have "\<dots> = ((?P ^ ?N mod ?Q) * (?P ^ ?N mod ?Q)) mod ?Q" by (simp add: mod_mult_eq)
  also have "\<dots> = 1" by (simp only: r square_pred_mod [OF q2])
  finally have "power_loop q 1 ?phi n = 1" by (simp add: word_unat_eq_iff)
  with b(1) show ?thesis by simp
qed

lemma unit_of_root:
  fixes P Q N :: nat
  assumes "2 \<le> Q" and "0 < N" and "P ^ N mod Q = Q - 1"
  shows "gcd P Q = 1"
proof -
  let ?d = "gcd P Q"
  have "P dvd P ^ N" using assms(2) by (simp add: dvd_power)
  then have "?d dvd P ^ N" by (rule dvd_trans [OF gcd_dvd1])
  moreover have dq: "?d dvd Q" by simp
  ultimately have "?d dvd P ^ N mod Q" by (simp add: dvd_mod)
  then have "?d dvd Q - 1" by (simp only: assms(3))
  with dq have "?d dvd Q - (Q - 1)" by (rule dvd_diff_nat)
  moreover have "Q - (Q - 1) = 1" using assms(1) by simp
  ultimately show ?thesis by simp
qed


lemma check_root_Inr:
  assumes "check_root q n psi = Inr (phi, inv_n)"
  shows "q \<noteq> 0" and "phi = (psi * psi) mod q" and "power psi n q = Inr (q - 1)"
    and "primitive_loop psi n q 1 = Inr True" and "inverse n q = Inr (Some inv_n)"
  using assms
  by (auto simp: check_root_def Let_def split: if_splits sum.splits option.splits bool.splits)

lemma crash_assert [simp]:
  "crash (AssertFail a) = ([Assertion_failed a], Abnormal (AssertFail a))"
  by (simp add: crash_def)

lemma check_root_Inl:
  assumes q2: "2 \<le> unat q" and qb: "unat q \<le> 2 ^ 16" and psi: "psi < q"
    and n0: "0 < unat n" and nb: "unat n < 2 ^ 31"
    and c: "check_root q n psi = Inl (ds, st)"
  shows "ds \<noteq> []" and "Parameters \<notin> set ds" and "st \<noteq> Exit_success"
    and "st \<noteq> Abnormal (AssertFail Main_phi_root)"
proof -
  have q0: "q \<noteq> 0" using q2 by (auto simp: unat_gt_0)
  then have qpos: "0 < q" by (simp add: word_neq_0_conv)
  define i where "i = power_loop q 1 psi n"
  have pw: "power psi n q = Inr i" using qpos by (simp add: power_def i_def)
  have nn: "n \<noteq> 0" using n0 by (auto simp: unat_gt_0)
  have sq: "sint q = int (unat q)" using qb by (intro sint_unat_small) simp
  have sn: "sint n = int (unat n)" using nb by (rule sint_unat_small)
  have "0 < int (unat n)" using n0 by linarith
  then have sn0: "0 < sint n" by (simp only: sn)
  have "1 < int (unat q)" using q2 by linarith
  then have sq1: "1 < sint q" by (simp only: sq)
  have "ds \<noteq> [] \<and> Parameters \<notin> set ds \<and> st \<noteq> Exit_success
      \<and> st \<noteq> Abnormal (AssertFail Main_phi_root)"
  proof (cases "i = q - 1")
    case False
    with c q0 pw show ?thesis by (auto simp: check_root_def Let_def)
  next
    case True
    then have "power psi n q = Inr (q - 1)" using pw by simp
    from phi_root [OF q2 qb psi nn this]
    have ph: "power ((psi * psi) mod q) n q = Inr 1" .
    show ?thesis
    proof (cases "primitive_loop psi n q 1")
      case (Inl e)
      with primitive_loop_no_error [OF q0] show ?thesis by blast
    next
      case (Inr b)
      show ?thesis
      proof (cases b)
        case False
        with c q0 pw True ph Inr show ?thesis by (auto simp: check_root_def Let_def)
      next
        case b: True
        show ?thesis
        proof (cases "inverse n q")
          case (Inl e)
          then have "e = AssertFail Inverse_result" using sn0 sq1 by (intro inverse_error)
          with c q0 pw True ph Inr b Inl show ?thesis by (auto simp: check_root_def Let_def)
        next
          case r: (Inr v)
          with c q0 pw True ph Inr b show ?thesis
            by (cases v) (auto simp: check_root_def Let_def)
        qed
      qed
    qed
  qed
  then show "ds \<noteq> []" and "Parameters \<notin> set ds" and "st \<noteq> Exit_success"
    and "st \<noteq> Abnormal (AssertFail Main_phi_root)" by blast+
qed

lemma parse_args_Inl:
  assumes "parse_args atol argv = Inl d"
  shows "d \<noteq> Parameters" and "d \<noteq> Assertion_failed a"
  using assms by (auto simp: parse_args_def Let_def split: if_splits)


lemma root_nat:
  assumes q2: "2 \<le> unat q" and qb: "unat q \<le> 2 ^ 16" and psi: "psi < q" and n: "n \<noteq> 0"
    and root: "power psi n q = Inr (q - 1)"
  shows "unat psi ^ unat n mod unat q = unat q - 1"
proof -
  have q0: "0 < unat q" using q2 by simp
  note a = power_bounded [OF q0 qb unat_lt_2p16 [OF psi qb], of n]
  have "q \<noteq> 0" using q0 by (simp add: unat_gt_0)
  then have "unat (q - 1) = unat q - 1" by (simp add: unat_minus_one)
  then show ?thesis using a root n by simp
qed

lemma power_nat:
  assumes q2: "2 \<le> unat q" and qb: "unat q \<le> 2 ^ 16" and psi: "psi < q" and k: "k < 2 ^ 32"
  shows "power psi (of_nat k) q = Inr (geo q psi 1 k)"
    and "unat (geo q psi 1 k) = unat psi ^ k mod unat q"
proof -
  have q0: "0 < unat q" using q2 by simp
  have one: "(1 :: uint32) < q" using q2 by (simp add: word_less_nat_alt)
  show "power psi (of_nat k) q = Inr (geo q psi 1 k)"
    using q2 qb psi k by (rule power_geo)
  show "unat (geo q psi 1 k) = unat psi ^ k mod unat q"
    using geo_closed_reduced [OF q0 qb psi one, of k] by simp
qed

lemma spec_root_valid_of_check:
  assumes q2: "2 \<le> unat q" and qb: "unat q \<le> 2 ^ 16" and psi: "psi < q"
    and n2: "2 \<le> unat n" and nb: "unat n < 2 ^ 31"
    and c: "check_root q n psi = Inr (phi, inv_n)"
  shows "spec_root_valid (int (unat q)) (int (unat n)) (int (unat psi))"
proof -
  let ?Q = "unat q" and ?N = "unat n" and ?P = "unat psi"
  note r = check_root_Inr [OF c]
  have nn: "n \<noteq> 0" using n2 by (auto simp: unat_gt_0)
  have "?P ^ ?N mod ?Q = ?Q - 1"
    using q2 qb psi nn r(3) by (rule root_nat)
  then have "int (?P ^ ?N mod ?Q) = int (?Q - 1)" by (simp only:)
  moreover have "int (?Q - 1) = int ?Q - 1" using q2 by (simp add: of_nat_diff)
  ultimately have a: "int ?P ^ ?N mod int ?Q = int ?Q - 1"
    by (simp only: of_nat_mod of_nat_power)
  have b: "int ?P ^ k mod int ?Q \<noteq> 1" if k: "1 \<le> k" "k < ?N" for k
  proof
    assume "int ?P ^ k mod int ?Q = 1"
    then have "int (?P ^ k mod ?Q) = int 1" by (simp only: of_nat_mod of_nat_power of_nat_1)
    then have e: "?P ^ k mod ?Q = 1" by (simp only: of_nat_eq_iff)
    have "?N < 2 ^ 32" using unsigned_less [of n] by simp
    with k have k32: "k < 2 ^ 32" by simp
    note p = power_nat [OF q2 qb psi k32]
    have "geo q psi 1 k = 1" using p(2) e by (simp add: word_unat_eq_iff)
    then have "power psi (of_nat k) q = Inr 1" using p(1) by simp
    moreover have "power psi (of_nat k) q \<noteq> Inr 1"
      using r(4) k by (intro primitive_loop_True [of psi n q 1 k]) simp_all
    ultimately show False by simp
  qed
  have sq: "sint q = int ?Q" using qb by (intro sint_unat_small) simp
  have sn: "sint n = int ?N" using nb by (rule sint_unat_small)
  have "0 < int ?N" using n2 by linarith
  then have sn0: "0 < sint n" by (simp only: sn)
  have "1 < int ?Q" using q2 by linarith
  then have sq1: "1 < sint q" by (simp only: sq)
  have "gcd (sint n) (sint q) = 1" using sn0 sq1 r(5) by (rule inverse_sound(4))
  then have g: "gcd (int ?N) (int ?Q) = 1" by (simp only: sn sq)
  have l: "list_all (\<lambda>i. int ?P ^ i mod int ?Q \<noteq> 1) [1..<?N]"
    using b by (simp add: list_all_iff)
  show ?thesis
    unfolding spec_root_valid_def nat_int using a l g by blast
qed

lemma psi_unit:
  assumes q2: "2 \<le> unat q" and qb: "unat q \<le> 2 ^ 16" and psi: "psi < q" and p2: "2 \<le> unat psi"
    and n: "n \<noteq> 0" and root: "power psi n q = Inr (q - 1)"
  shows "inverse psi q \<noteq> Inr None" and "gcd (unat psi) (unat q) = 1"
proof -
  have n0: "0 < unat n" using n by (simp add: unat_gt_0)
  have r: "unat psi ^ unat n mod unat q = unat q - 1"
    using q2 qb psi n root by (rule root_nat)
  show g: "gcd (unat psi) (unat q) = 1" using q2 n0 r by (rule unit_of_root)
  have qs: "unat q < 2 ^ 31" using qb by simp
  have ps: "unat psi < 2 ^ 31" using psi qs by (simp add: word_less_nat_alt)
  note sq = sint_ranges [OF q2 qs] and sp = sint_ranges [OF p2 ps]
  have "gcd (sint psi) (sint q) = 1" using g by (simp only: sq(1) sp(1) gcd_int_int_eq)
  from inverse_unit [OF sp(2) sq(3) this] show "inverse psi q \<noteq> Inr None" by auto
qed

lemma write_three:
  assumes "snd a = None" and "snd b = None" and "snd c = None"
  shows "write_tables [a, b, c] = ([fst a, fst b, fst c], None)"
  using assms by (cases a; cases b; cases c) simp

lemma main_psi_cases:
  fixes atol argv
  defines "r \<equiv> main_psi atol argv"
  shows "(status r \<noteq> Exit_success \<and> out_stream r = [] \<and> err_stream r \<noteq> []
            \<and> Parameters \<notin> set (err_stream r)
            \<and> status r \<noteq> Abnormal (AssertFail Main_phi_root)
            \<and> (\<forall>x. Psi_not_invertible x \<notin> set (err_stream r)))
       \<or> (\<exists>q n psi phi inv_n inv_psi.
              parse_args atol argv = Inr (q, n, psi)
            \<and> check_root q n psi = Inr (phi, inv_n)
            \<and> inverse psi q = Inr (Some inv_psi)
            \<and> r = \<lparr> err_stream = psi_summary q n psi phi inv_psi inv_n,
                     out_stream = [fst (psi_power_table n q psi),
                                   fst (inv_psi_power_table n q inv_psi),
                                   fst (scaled_inv_psi_power_table n q inv_psi inv_n)],
                     status = Exit_success \<rparr>)"
proof (cases "parse_args atol argv")
  case (Inl d)
  have "d \<noteq> Parameters" using Inl by (rule parse_args_Inl)
  moreover have "d \<noteq> Psi_not_invertible x" for x
    using Inl by (auto simp: parse_args_def Let_def split: if_splits)
  ultimately show ?thesis by (auto simp: r_def main_psi_def Inl)
next
  case (Inr t)
  obtain q n psi where t: "t = (q, n, psi)" by (cases t)
  note p = Inr [unfolded t]
  note rg = parse_args_ranges [OF p]
  have qb: "unat q \<le> 2 ^ 16" and nb: "unat n < 2 ^ 31" and n0: "0 < unat n"
    using rg(2,3,4) by simp_all
  have nn: "n \<noteq> 0" using n0 by (auto simp: unat_gt_0)
  show ?thesis
  proof (cases "check_root q n psi")
    case (Inl f)
    obtain ds st where f: "f = (ds, st)" by (cases f)
    note c = Inl [unfolded f]
    note k = check_root_Inl [OF rg(1) qb rg(6) n0 nb c]
    have "Psi_not_invertible x \<notin> set ds" for x
      using c by (auto simp: check_root_def Let_def crash_def
          split: if_splits sum.splits option.splits bool.splits error.splits)
    with k show ?thesis by (simp add: r_def main_psi_def p c)
  next
    case c: (Inr u)
    obtain phi inv_n where u: "u = (phi, inv_n)" by (cases u)
    note c = c [unfolded u]
    note cr = check_root_Inr [OF c]
    have qs: "unat q < 2 ^ 31" using qb by simp
    have ps: "unat psi < 2 ^ 31" using rg(6) qs by (simp add: word_less_nat_alt)
    note sq = sint_ranges [OF rg(1) qs] and sp = sint_ranges [OF rg(5) ps]
    show ?thesis
    proof (cases "inverse psi q")
      case (Inl e)
      then have "e = AssertFail Inverse_result" using sp(2) sq(3) by (intro inverse_error)
      then show ?thesis by (simp add: r_def main_psi_def p c Inl)
    next
      case i: (Inr v)
      show ?thesis
      proof (cases v)
        case None
        with i psi_unit(1) [OF rg(1) qb rg(6) rg(5) nn cr(3)] show ?thesis by simp
      next
        case (Some inv_psi)
        have w: "write_tables
                   [psi_power_table n q psi, inv_psi_power_table n q inv_psi,
                    scaled_inv_psi_power_table n q inv_psi inv_n]
               = ([fst (psi_power_table n q psi), fst (inv_psi_power_table n q inv_psi),
                   fst (scaled_inv_psi_power_table n q inv_psi inv_n)], None)"
          by (rule write_three)
             (simp_all add: psi_power_table_def inv_psi_power_table_def
                scaled_inv_psi_power_table_def power_table_entries(1) [OF cr(1)])
        have "r = \<lparr> err_stream = psi_summary q n psi phi inv_psi inv_n,
                     out_stream = [fst (psi_power_table n q psi),
                                   fst (inv_psi_power_table n q inv_psi),
                                   fst (scaled_inv_psi_power_table n q inv_psi inv_n)],
                     status = Exit_success \<rparr>"
          by (simp add: r_def main_psi_def p c i Some w psi_summary_def Let_def)
        with p c i Some show ?thesis by blast
      qed
    qed
  qed
qed



lemma main_shoup_cases:
  fixes atol malloc argv
  defines "r \<equiv> main_shoup atol malloc argv"
  shows "(status r \<noteq> Exit_success \<and> out_stream r = [] \<and> err_stream r \<noteq> []
            \<and> Parameters \<notin> set (err_stream r)
            \<and> status r \<noteq> Abnormal (AssertFail Main_phi_root))
       \<or> (\<exists>q n psi phi inv_n.
              parse_args atol argv = Inr (q, n, psi)
            \<and> check_root q n psi = Inr (phi, inv_n)
            \<and> (r = \<lparr> err_stream = shoup_summary q n psi phi inv_n @ [Alloc_failed n],
                      out_stream = [], status = Exit_failure \<rparr>
               \<or> (\<exists>a. (a = Shoup_cursor \<or> a = Shoup_bound)
                     \<and> r = \<lparr> err_stream = shoup_summary q n psi phi inv_n @ [Assertion_failed a],
                              out_stream = [], status = Abnormal (AssertFail a) \<rparr>)
               \<or> (\<exists>block s. malloc (unat n) = Some block
                     \<and> build_shoup_table (map block [0..<unat n]) n q phi = Inr s
                     \<and> r = \<lparr> err_stream = shoup_summary q n psi phi inv_n,
                              out_stream = [fst (print_table ''shoup_ntt'' (tab s) n q)],
                              status = Exit_success \<rparr>)))"
proof (cases "parse_args atol argv")
  case (Inl d)
  have "d \<noteq> Parameters" using Inl by (rule parse_args_Inl)
  then show ?thesis by (auto simp: r_def main_shoup_def Inl)
next
  case (Inr t)
  obtain q n psi where t: "t = (q, n, psi)" by (cases t)
  note p = Inr [unfolded t]
  note rg = parse_args_ranges [OF p]
  have qb: "unat q \<le> 2 ^ 16" and nb: "unat n < 2 ^ 31" and n0: "0 < unat n"
    using rg(2,3,4) by simp_all
  show ?thesis
  proof (cases "check_root q n psi")
    case (Inl f)
    obtain ds st where f: "f = (ds, st)" by (cases f)
    note c = Inl [unfolded f]
    note k = check_root_Inl [OF rg(1) qb rg(6) n0 nb c]
    then show ?thesis by (simp add: r_def main_shoup_def p c)
  next
    case c: (Inr u)
    obtain phi inv_n where u: "u = (phi, inv_n)" by (cases u)
    note c = c [unfolded u]
    note cr = check_root_Inr [OF c]
    let ?sum = "shoup_summary q n psi phi inv_n"
    show ?thesis
    proof (cases "malloc (unat n)")
      case None
      have "r = \<lparr> err_stream = ?sum @ [Alloc_failed n], out_stream = [], status = Exit_failure \<rparr>"
        by (simp add: r_def main_shoup_def p c None shoup_summary_def)
      with p c show ?thesis by blast
    next
      case (Some block)
      let ?a = "map block [0..<unat n]"
      have la: "length ?a = unat n" by simp
      from build_shoup_table_result [OF cr(1) la rg(3) nb, of phi]
      consider s where "build_shoup_table ?a n q phi = Inr s" "length (tab s) = unat n"
        | a where "a = Shoup_cursor \<or> a = Shoup_bound"
            "build_shoup_table ?a n q phi = Inl (AssertFail a)"
        by blast
      then show ?thesis
      proof cases
        case 1
        have "print_table ''shoup_ntt'' (tab s) n q
            = (fst (print_table ''shoup_ntt'' (tab s) n q), None)"
          using 1(2) by (simp add: print_table_def print_table_loop_ok)
        then have w: "write_tables [print_table ''shoup_ntt'' (tab s) n q]
            = ([fst (print_table ''shoup_ntt'' (tab s) n q)], None)"
          by (metis write_tables.simps(1,3) case_prod_conv)
        have "r = \<lparr> err_stream = ?sum,
                     out_stream = [fst (print_table ''shoup_ntt'' (tab s) n q)],
                     status = Exit_success \<rparr>"
          by (simp add: r_def main_shoup_def p c Some 1(1) w shoup_summary_def Let_def)
        with p c Some 1(1) show ?thesis by blast
      next
        case 2
        have "r = \<lparr> err_stream = ?sum @ [Assertion_failed a], out_stream = [],
                     status = Abnormal (AssertFail a) \<rparr>"
          by (simp add: r_def main_shoup_def p c Some 2(2) shoup_summary_def)
        with p c 2(1) show ?thesis by blast
      qed
    qed
  qed
qed

lemma spec_checks_of_run:
  assumes p: "parse_args atol argv = Inr (q, n, psi)"
    and c: "check_root q n psi = Inr (phi, inv_n)"
  shows "spec_checks_shoup atol argv" and "spec_checks_psi atol argv"
proof -
  note a = parse_args_Inr [OF p] and rg = parse_args_ranges [OF p]
  have qb: "unat q \<le> 2 ^ 16" and nb: "unat n < 2 ^ 31" using rg(2,4) by simp_all
  have u: "atol (argv ! 1) = int (unat q)" "atol (argv ! 2) = int (unat n)"
    "atol (argv ! 3) = int (unat psi)"
    using a(4,7,10) by simp_all
  have args: "spec_args_valid atol argv"
    using a by (simp add: spec_args_valid_def)
  have root: "spec_root_valid (int (unat q)) (int (unat n)) (int (unat psi))"
    using rg(1) qb rg(6) rg(3) nb c by (rule spec_root_valid_of_check)
  show s: "spec_checks_shoup atol argv"
    unfolding spec_checks_shoup_def u using args root by blast
  note cr = check_root_Inr [OF c]
  have nn: "n \<noteq> 0" using rg(3) by (auto simp: unat_gt_0)
  have "gcd (unat psi) (unat q) = 1"
    using rg(1) qb rg(6) rg(5) nn cr(3) by (rule psi_unit(2))
  then have "gcd (int (unat psi)) (int (unat q)) = 1" by (simp only: gcd_int_int_eq of_nat_1)
  then show "spec_checks_psi atol argv"
    unfolding spec_checks_psi_def u using s by blast
qed

lemma round_trip_nat:
  fixes P V Q :: nat
  assumes "2 \<le> Q" and "(P * V) mod Q = 1"
  shows "((P ^ i mod Q) * (V ^ i mod Q)) mod Q = 1"
proof -
  have "((P ^ i mod Q) * (V ^ i mod Q)) mod Q = (P ^ i * V ^ i) mod Q"
    by (simp add: mod_mult_eq)
  also have "\<dots> = ((P * V) ^ i) mod Q" by (simp add: power_mult_distrib)
  also have "\<dots> = (((P * V) mod Q) ^ i) mod Q" by (simp add: power_mod)
  also have "\<dots> = 1" using assms by simp
  finally show ?thesis .
qed

text \<open>
  C7. When \<^verbatim>\<open>main\<close> of \<^verbatim>\<open>psi_power_tables.c\<close> returns \<open>0\<close> (the triple passed every
  check), it has printed three tables; the forward and the inverse table have \<open>n\<close>
  entries each, both begin with \<open>1\<close>, and for every index \<open>0 < i < n\<close> the product of
  their entries at \<open>i\<close> is \<open>1\<close> modulo \<open>q\<close>.
\<close>

theorem psi_round_trip:
  assumes ok: "status (main_psi atol argv) = Exit_success"
  shows "\<exists>q n psi fwd inv scaled.
           parse_args atol argv = Inr (q, n, psi)
         \<and> out_stream (main_psi atol argv) = [fwd, inv, scaled]
         \<and> table_name fwd = ''psi_powers_ntt'' \<and> table_name inv = ''inv_psi_powers_ntt''
         \<and> length (entries fwd) = unat n \<and> length (entries inv) = unat n
         \<and> entries fwd ! 0 = 1 \<and> entries inv ! 0 = 1
         \<and> (\<forall>i. 0 < i \<and> i < unat n \<longrightarrow>
               (unat (entries fwd ! i) * unat (entries inv ! i)) mod unat q = 1)"
proof -
  from main_psi_cases [of atol argv] ok obtain q n psi phi inv_n inv_psi where
    p: "parse_args atol argv = Inr (q, n, psi)"
    and c: "check_root q n psi = Inr (phi, inv_n)"
    and i: "inverse psi q = Inr (Some inv_psi)"
    and r: "main_psi atol argv =
              \<lparr> err_stream = psi_summary q n psi phi inv_psi inv_n,
                out_stream = [fst (psi_power_table n q psi),
                              fst (inv_psi_power_table n q inv_psi),
                              fst (scaled_inv_psi_power_table n q inv_psi inv_n)],
                status = Exit_success \<rparr>"
    by blast
  let ?fwd = "fst (psi_power_table n q psi)" and ?inv = "fst (inv_psi_power_table n q inv_psi)"
  note rg = parse_args_ranges [OF p]
  have qb: "unat q \<le> 2 ^ 16" and qs: "unat q < 2 ^ 31" using rg(2) by simp_all
  have q0: "0 < unat q" using rg(1) by simp
  have qn: "q \<noteq> 0" using q0 by (auto simp: unat_gt_0)
  have ps: "unat psi < 2 ^ 31" using rg(6) qs by (simp add: word_less_nat_alt)
  note sq = sint_ranges [OF rg(1) qs] and sp = sint_ranges [OF rg(5) ps]
  note v = inverse_sound [OF sp(2) sq(3) i]
  have uv: "int (unat inv_psi) = sint inv_psi" using v(1) by (rule unat_sint_nonneg)
  have "unat inv_psi < unat q" using v(2) by (simp only: sq(1) uv [symmetric] of_nat_less_iff)
  then have vq: "inv_psi < q" by (simp add: word_less_nat_alt)
  have "int ((unat psi * unat inv_psi) mod unat q) = (sint psi * sint inv_psi) mod sint q"
    by (simp only: sp(1) sq(1) uv [symmetric] of_nat_mult of_nat_mod)
  then have pv: "(unat psi * unat inv_psi) mod unat q = 1" using v(3) by simp
  have one: "(1 :: uint32) < q" using rg(1) by (simp add: word_less_nat_alt)
  have ef: "entries ?fwd = map (geo q psi 1) [0..<unat n]"
    and ei: "entries ?inv = map (geo q inv_psi 1) [0..<unat n]"
    by (simp_all add: psi_power_table_def inv_psi_power_table_def power_table_entries(2) [OF qn])
  have n0: "0 < unat n" using rg(3) by simp
  have names: "table_name ?fwd = ''psi_powers_ntt''" "table_name ?inv = ''inv_psi_powers_ntt''"
    by (simp_all add: psi_power_table_def inv_psi_power_table_def power_table_def split_def Let_def)
  have first: "entries ?fwd ! 0 = 1" "entries ?inv ! 0 = 1"
    using n0 by (simp_all add: ef ei)
  have prod: "(unat (entries ?fwd ! k) * unat (entries ?inv ! k)) mod unat q = 1"
    if "0 < k \<and> k < unat n" for k
  proof -
    have "unat (entries ?fwd ! k) = unat psi ^ k mod unat q"
      using that geo_closed_reduced [OF q0 qb rg(6) one, of k] by (simp add: ef)
    moreover have "unat (entries ?inv ! k) = unat inv_psi ^ k mod unat q"
      using that geo_closed_reduced [OF q0 qb vq one, of k] by (simp add: ei)
    ultimately show ?thesis using round_trip_nat [OF rg(1) pv, of k] by simp
  qed
  have "out_stream (main_psi atol argv) = [?fwd, ?inv, fst (scaled_inv_psi_power_table n q inv_psi inv_n)]"
    by (simp add: r)
  with p names first prod ef ei show ?thesis
    by (intro exI [of _ q] exI [of _ n] exI [of _ psi] exI [of _ ?fwd] exI [of _ ?inv]
          exI [of _ "fst (scaled_inv_psi_power_table n q inv_psi inv_n)"]) simp
qed

theorem psi_round_trip_witness:
  "status (main_psi decimal [''psi_power_tables'', ''17'', ''8'', ''3'']) = Exit_success
   \<and> (\<exists>fwd inv scaled.
         out_stream (main_psi decimal [''psi_power_tables'', ''17'', ''8'', ''3''])
           = [fwd, inv, scaled]
       \<and> entries fwd ! 0 = 1 \<and> entries inv ! 0 = 1
       \<and> (unat (entries fwd ! 3) * unat (entries inv ! 3)) mod 17 = 1)"
proof -
  let ?argv = "[''psi_power_tables'', ''17'', ''8'', ''3'']"
  have s: "status (main_psi decimal ?argv) = Exit_success" by code_simp
  have p: "parse_args decimal ?argv = Inr (17, 8, 3)" by code_simp
  from psi_round_trip [OF s] obtain q n psi fwd inv scaled where
    a: "parse_args decimal ?argv = Inr (q, n, psi)"
      "out_stream (main_psi decimal ?argv) = [fwd, inv, scaled]"
      "entries fwd ! 0 = 1" "entries inv ! 0 = 1"
      "\<forall>i. 0 < i \<and> i < unat n \<longrightarrow>
         (unat (entries fwd ! i) * unat (entries inv ! i)) mod unat q = 1"
    by blast
  from a(1) p have "q = 17" "n = 8" by simp_all
  with a(5) have "(unat (entries fwd ! 3) * unat (entries inv ! 3)) mod 17 = 1" by simp
  with s a(2,3,4) show ?thesis by blast
qed

text \<open>
  C8. In both tools, whenever control reaches \<^verbatim>\<open>assert(power(phi, n, q) == 1)\<close>, that is,
  the arguments were accepted as \<open>(q, n, psi)\<close> and \<^verbatim>\<open>power(psi, n, q) == q - 1\<close> held,
  \<^verbatim>\<open>power(phi, n, q)\<close> is \<open>1\<close> for \<open>phi = psi * psi % q\<close>; no run of either tool ends at
  this assertion.
\<close>

theorem phi_assertion_never_fails:
  "(\<forall>q n psi. parse_args atol argv = Inr (q, n, psi) \<longrightarrow> power psi n q = Inr (q - 1)
       \<longrightarrow> power ((psi * psi) mod q) n q = Inr 1)
   \<and> status (main_psi atol argv) \<noteq> Abnormal (AssertFail Main_phi_root)
   \<and> status (main_shoup atol malloc argv) \<noteq> Abnormal (AssertFail Main_phi_root)"
proof (intro conjI allI impI)
  fix q n psi
  assume p: "parse_args atol argv = Inr (q, n, psi)" and r: "power psi n q = Inr (q - 1)"
  note rg = parse_args_ranges [OF p]
  have qb: "unat q \<le> 2 ^ 16" using rg(2) by simp
  have nn: "n \<noteq> 0" using rg(3) by (auto simp: unat_gt_0)
  show "power ((psi * psi) mod q) n q = Inr 1"
    using rg(1) qb rg(6) nn r by (rule phi_root)
next
  show "status (main_psi atol argv) \<noteq> Abnormal (AssertFail Main_phi_root)"
    using main_psi_cases [of atol argv] by auto
next
  show "status (main_shoup atol malloc argv) \<noteq> Abnormal (AssertFail Main_phi_root)"
    using main_shoup_cases [of atol malloc argv] by auto
qed

theorem phi_assertion_never_fails_witness:
  "parse_args decimal [''shoup_tables'', ''17'', ''8'', ''3''] = Inr (17, 8, 3)
   \<and> power 3 8 17 = Inr (17 - 1)
   \<and> power ((3 * 3) mod 17) 8 17 = Inr 1"
proof -
  have p: "parse_args decimal [''shoup_tables'', ''17'', ''8'', ''3''] = Inr (17, 8, 3)"
    by code_simp
  have r: "power 3 8 17 = Inr (17 - 1)" by code_simp
  from phi_assertion_never_fails [of decimal "[''shoup_tables'', ''17'', ''8'', ''3'']"] p r
  have "power ((3 * 3) mod 17) 8 17 = Inr 1" by blast
  with p r show ?thesis by blast
qed

text \<open>
  C9. Whenever one of the checks of the specification fails (an argument check, or a
  root check), the tool ends with a status other than success, has written a
  diagnostic and no parameter summary to the error stream, and nothing to the standard
  output. More generally, every run that does not end with success has written nothing
  to the standard output and something to the error stream.
\<close>

theorem failure_emits_no_table:
  "(\<not> spec_checks_psi atol argv \<longrightarrow>
        status (main_psi atol argv) \<noteq> Exit_success
      \<and> out_stream (main_psi atol argv) = []
      \<and> err_stream (main_psi atol argv) \<noteq> []
      \<and> Parameters \<notin> set (err_stream (main_psi atol argv)))
   \<and> (\<not> spec_checks_shoup atol argv \<longrightarrow>
        status (main_shoup atol malloc argv) \<noteq> Exit_success
      \<and> out_stream (main_shoup atol malloc argv) = []
      \<and> err_stream (main_shoup atol malloc argv) \<noteq> []
      \<and> Parameters \<notin> set (err_stream (main_shoup atol malloc argv)))
   \<and> (status (main_psi atol argv) \<noteq> Exit_success \<longrightarrow>
        out_stream (main_psi atol argv) = [] \<and> err_stream (main_psi atol argv) \<noteq> [])
   \<and> (status (main_shoup atol malloc argv) \<noteq> Exit_success \<longrightarrow>
        out_stream (main_shoup atol malloc argv) = []
      \<and> err_stream (main_shoup atol malloc argv) \<noteq> [])"
proof (intro conjI impI)
  assume n: "\<not> spec_checks_psi atol argv"
  from main_psi_cases [of atol argv] n spec_checks_of_run(2) [of atol argv]
  have "status (main_psi atol argv) \<noteq> Exit_success \<and> out_stream (main_psi atol argv) = []
      \<and> err_stream (main_psi atol argv) \<noteq> []
      \<and> Parameters \<notin> set (err_stream (main_psi atol argv))"
    by blast
  then show "status (main_psi atol argv) \<noteq> Exit_success"
    and "out_stream (main_psi atol argv) = []"
    and "err_stream (main_psi atol argv) \<noteq> []"
    and "Parameters \<notin> set (err_stream (main_psi atol argv))"
    by blast+
next
  assume n: "\<not> spec_checks_shoup atol argv"
  from main_shoup_cases [of atol malloc argv] n spec_checks_of_run(1) [of atol argv]
  have "status (main_shoup atol malloc argv) \<noteq> Exit_success
      \<and> out_stream (main_shoup atol malloc argv) = []
      \<and> err_stream (main_shoup atol malloc argv) \<noteq> []
      \<and> Parameters \<notin> set (err_stream (main_shoup atol malloc argv))"
    by blast
  then show "status (main_shoup atol malloc argv) \<noteq> Exit_success"
    and "out_stream (main_shoup atol malloc argv) = []"
    and "err_stream (main_shoup atol malloc argv) \<noteq> []"
    and "Parameters \<notin> set (err_stream (main_shoup atol malloc argv))"
    by blast+
next
  assume "status (main_psi atol argv) \<noteq> Exit_success"
  with main_psi_cases [of atol argv]
  show "out_stream (main_psi atol argv) = []" and "err_stream (main_psi atol argv) \<noteq> []"
    by auto
next
  assume "status (main_shoup atol malloc argv) \<noteq> Exit_success"
  with main_shoup_cases [of atol malloc argv]
  show "out_stream (main_shoup atol malloc argv) = []"
    and "err_stream (main_shoup atol malloc argv) \<noteq> []"
    by (auto simp: shoup_summary_def)
qed


theorem failure_emits_no_table_witness:
  "\<not> spec_checks_psi decimal [''psi_power_tables'', ''17'', ''8'', ''2'']
   \<and> status (main_psi decimal [''psi_power_tables'', ''17'', ''8'', ''2'']) \<noteq> Exit_success
   \<and> out_stream (main_psi decimal [''psi_power_tables'', ''17'', ''8'', ''2'']) = []
   \<and> err_stream (main_psi decimal [''psi_power_tables'', ''17'', ''8'', ''2'']) \<noteq> []
   \<and> \<not> spec_checks_shoup decimal [''shoup_tables'', ''70000'', ''8'', ''3'']
   \<and> status (main_shoup decimal (\<lambda>k. Some (\<lambda>i. 0)) [''shoup_tables'', ''70000'', ''8'', ''3''])
        \<noteq> Exit_success
   \<and> out_stream (main_shoup decimal (\<lambda>k. Some (\<lambda>i. 0)) [''shoup_tables'', ''70000'', ''8'', ''3''])
        = []"
proof -
  have a: "\<not> spec_checks_psi decimal [''psi_power_tables'', ''17'', ''8'', ''2'']"
    by code_simp
  have b: "\<not> spec_checks_shoup decimal [''shoup_tables'', ''70000'', ''8'', ''3'']"
    by code_simp
  from failure_emits_no_table
         [of decimal "[''psi_power_tables'', ''17'', ''8'', ''2'']" "\<lambda>k. Some (\<lambda>i. 0)"] a
  have "status (main_psi decimal [''psi_power_tables'', ''17'', ''8'', ''2'']) \<noteq> Exit_success
      \<and> out_stream (main_psi decimal [''psi_power_tables'', ''17'', ''8'', ''2'']) = []
      \<and> err_stream (main_psi decimal [''psi_power_tables'', ''17'', ''8'', ''2'']) \<noteq> []"
    by blast
  moreover from failure_emits_no_table
         [of decimal "[''shoup_tables'', ''70000'', ''8'', ''3'']" "\<lambda>k. Some (\<lambda>i. 0)"] b
  have "status (main_shoup decimal (\<lambda>k. Some (\<lambda>i. 0)) [''shoup_tables'', ''70000'', ''8'', ''3''])
          \<noteq> Exit_success
      \<and> out_stream (main_shoup decimal (\<lambda>k. Some (\<lambda>i. 0)) [''shoup_tables'', ''70000'', ''8'', ''3''])
          = []"
    by blast
  ultimately show ?thesis using a b by blast
qed

text \<open>
  The branch of \<^verbatim>\<open>main\<close> that prints \<^verbatim>\<open>invalid psi: it's not invertible modulo q\<close> is never
  taken: once \<^verbatim>\<open>power(psi, n, q) == q - 1\<close> has held, \<open>psi\<close> is a unit modulo \<open>q\<close> and
  \<^verbatim>\<open>inverse(psi, q, &inv_psi)\<close> does not return \<^verbatim>\<open>false\<close>.
\<close>

lemma psi_not_invertible_unreachable:
  "Psi_not_invertible x \<notin> set (err_stream (main_psi atol argv))"
  using main_psi_cases [of atol argv] by (auto simp: psi_summary_def)

text \<open>
  C10 fails on the code. The command line \<^verbatim>\<open>psi_power_tables 61441 4 44853\<close> passes every
  check of the specification (\<open>44853 ^ 4 mod 61441 = 61440\<close>, no smaller power is \<open>1\<close>,
  \<open>4\<close> and \<open>44853\<close> are units modulo \<open>61441\<close>), and \<^verbatim>\<open>power(psi, n, q) == q - 1\<close> holds.
  \<^verbatim>\<open>inverse(44853, 61441, &inv_psi)\<close> finds the inverse \<open>56274\<close>, but the product
  \<open>44853 * 56274 = 2524057722\<close> of its last assertion exceeds \<open>2 ^ 31 - 1\<close>: as an
  \<^verbatim>\<open>int32_t\<close> it is negative, its remainder is not \<open>1\<close>, and the run ends at the assertion
  instead of printing the tables.
\<close>

theorem psi_inverse_assertion_fails:
  "spec_checks_psi decimal [''psi_power_tables'', ''61441'', ''4'', ''44853'']
   \<and> power 44853 4 61441 = Inr (61441 - 1)
   \<and> (44853 * 56274) mod 61441 = (1 :: int)
   \<and> inverse 44853 61441 = Inl (AssertFail Inverse_result)
   \<and> main_psi decimal [''psi_power_tables'', ''61441'', ''4'', ''44853'']
       = \<lparr> err_stream = [Assertion_failed Inverse_result], out_stream = [],
           status = Abnormal (AssertFail Inverse_result) \<rparr>"
proof -
  have "spec_checks_psi decimal [''psi_power_tables'', ''61441'', ''4'', ''44853'']"
    by code_simp
  moreover have "power 44853 4 61441 = Inr (61441 - 1)" by code_simp
  moreover have "(44853 * 56274) mod 61441 = (1 :: int)" by simp
  moreover have "inverse 44853 61441 = Inl (AssertFail Inverse_result)" by code_simp
  moreover have "main_psi decimal [''psi_power_tables'', ''61441'', ''4'', ''44853'']
       = \<lparr> err_stream = [Assertion_failed Inverse_result], out_stream = [],
           status = Abnormal (AssertFail Inverse_result) \<rparr>"
    by code_simp
  ultimately show ?thesis by blast
qed


end
